theory Spec2Isabelle
  imports Main "HOL-Library.Word"
begin

unbundle bit_operations_syntax

section \<open>Machine model\<close>

text \<open>
  The firmware runs on VexRiscv, a 32-bit RISC-V core: pointers, \<open>size_t\<close>,
  \<open>uintptr_t\<close>, \<open>long\<close> and \<open>int\<close> are 32 bits wide, and unsigned arithmetic
  wraps modulo \<open>2 ^ 32\<close>.  Memory is byte addressed and little endian; a
  \<open>uint32_t\<close> access reads or writes four consecutive bytes.
\<close>

type_synonym addr = "32 word"
type_synonym byte = "8 word"
type_synonym u32 = "32 word"
type_synonym memory = "addr \<Rightarrow> byte"

definition load32 :: "memory \<Rightarrow> addr \<Rightarrow> u32" where
  "load32 m a = ucast (m a) OR push_bit 8 (ucast (m (a + 1)))
     OR push_bit 16 (ucast (m (a + 2))) OR push_bit 24 (ucast (m (a + 3)))"

definition store32 :: "memory \<Rightarrow> addr \<Rightarrow> u32 \<Rightarrow> memory" where
  "store32 m a v = m(a := ucast v, a + 1 := ucast (drop_bit 8 v),
     a + 2 := ucast (drop_bit 16 v), a + 3 := ucast (drop_bit 24 v))"

section \<open>The heap allocator (libc/memory.c)\<close>

text \<open>
  \<open>block_header_t\<close> has the field \<open>size\<close> at offset 0 and \<open>prev_size\<close> at
  offset 4.  The three file-scope variables of memory.c and the memory they
  point into form the allocator state.
\<close>

definition BLOCK_USED :: u32 where "BLOCK_USED = 1"
definition BLOCK_SIZE_MASK :: u32 where "BLOCK_SIZE_MASK = NOT 3"
definition MIN_BLOCK_SIZE :: u32 where "MIN_BLOCK_SIZE = 16"
definition ALIGNMENT :: u32 where "ALIGNMENT = 8"
definition HEADER_SIZE :: u32 where "HEADER_SIZE = 8"
definition NULL :: addr where "NULL = 0"

record heap_state =
  mem :: memory
  heap_start :: addr
  heap_end :: addr
  free_list :: addr

definition get_size :: "memory \<Rightarrow> addr \<Rightarrow> u32" where
  "get_size m b = load32 m b"

definition get_prev_size :: "memory \<Rightarrow> addr \<Rightarrow> u32" where
  "get_prev_size m b = load32 m (b + 4)"

definition set_size :: "memory \<Rightarrow> addr \<Rightarrow> u32 \<Rightarrow> memory" where
  "set_size m b v = store32 m b v"

definition set_prev_size :: "memory \<Rightarrow> addr \<Rightarrow> u32 \<Rightarrow> memory" where
  "set_prev_size m b v = store32 m (b + 4) v"

definition heap_init :: "heap_state \<Rightarrow> addr \<Rightarrow> u32 \<Rightarrow> heap_state" where
  "heap_init s start sz =
     (let aligned_start = (start + ALIGNMENT - 1) AND NOT (ALIGNMENT - 1);
          size1 = sz - (aligned_start - start);
          size2 = size1 AND NOT (ALIGNMENT - 1);
          m1 = set_size (mem s) aligned_start size2;
          m2 = set_prev_size m1 aligned_start 0
      in \<lparr>mem = m2, heap_start = aligned_start, heap_end = aligned_start + size2,
          free_list = aligned_start\<rparr>)"

definition align_size :: "u32 \<Rightarrow> u32" where
  "align_size sz =
     (let total = sz + HEADER_SIZE;
          total = (if total < MIN_BLOCK_SIZE then MIN_BLOCK_SIZE else total)
      in (total + ALIGNMENT - 1) AND NOT (ALIGNMENT - 1))"

text \<open>
  The body of malloc once a free block that is large enough has been found:
  split it when the remainder can hold a block, otherwise take all of it.
\<close>

definition take_block :: "heap_state \<Rightarrow> u32 \<Rightarrow> addr \<Rightarrow> u32 \<Rightarrow> heap_state" where
  "take_block s needed block block_size =
     (if needed + MIN_BLOCK_SIZE \<le> block_size then
        let next = block + needed;
            m1 = set_size (mem s) next (block_size - needed);
            m2 = set_prev_size m1 next needed;
            after_next = next + (get_size m2 next AND BLOCK_SIZE_MASK);
            m3 = (if after_next < heap_end s
                  then set_prev_size m2 after_next (get_size m2 next AND BLOCK_SIZE_MASK)
                  else m2);
            m4 = set_size m3 block (needed OR BLOCK_USED)
        in s\<lparr>mem := m4\<rparr>
      else s\<lparr>mem := set_size (mem s) block (get_size (mem s) block OR BLOCK_USED)\<rparr>)"

text \<open>
  The first-fit scan.  The C loop has no bound of its own (a block of size 0
  makes it spin), so not returning is the value \<open>None\<close>.
\<close>

partial_function (option) malloc_loop ::
  "heap_state \<Rightarrow> u32 \<Rightarrow> addr \<Rightarrow> (heap_state \<times> addr) option" where
  "malloc_loop s needed block =
     (if block < heap_end s then
        (if get_size (mem s) block AND BLOCK_USED = 0
            \<and> needed \<le> (get_size (mem s) block AND BLOCK_SIZE_MASK)
         then Some (take_block s needed block (get_size (mem s) block AND BLOCK_SIZE_MASK),
                    block + HEADER_SIZE)
         else malloc_loop s needed (block + (get_size (mem s) block AND BLOCK_SIZE_MASK)))
      else Some (s, NULL))"

declare malloc_loop.simps [code]

definition malloc :: "heap_state \<Rightarrow> u32 \<Rightarrow> (heap_state \<times> addr) option" where
  "malloc s sz =
     (if sz = 0 \<or> heap_start s = NULL then Some (s, NULL)
      else malloc_loop s (align_size sz) (heap_start s))"

text \<open>Forward and backward coalescing, the two halves of free after the flag is cleared.\<close>

definition coalesce_next :: "heap_state \<Rightarrow> memory \<Rightarrow> addr \<Rightarrow> u32 \<Rightarrow> memory \<times> u32" where
  "coalesce_next s m block block_size =
     (let next = block + block_size in
      if next < heap_end s \<and> get_size m next AND BLOCK_USED = 0 then
        let next_size = get_size m next AND BLOCK_SIZE_MASK;
            m1 = set_size m block (get_size m block + next_size);
            block_size1 = block_size + next_size;
            after_merged = block + block_size1;
            m2 = (if after_merged < heap_end s
                  then set_prev_size m1 after_merged block_size1 else m1)
        in (m2, block_size1)
      else (m, block_size))"

definition coalesce_prev :: "heap_state \<Rightarrow> memory \<Rightarrow> addr \<Rightarrow> u32 \<Rightarrow> memory" where
  "coalesce_prev s m block block_size =
     (if get_prev_size m block \<noteq> 0 then
        let prev = block - get_prev_size m block in
        if heap_start s \<le> prev \<and> get_size m prev AND BLOCK_USED = 0 then
          let prev_size = get_size m prev AND BLOCK_SIZE_MASK;
              m1 = set_size m prev (prev_size + block_size);
              after_merged = prev + (get_size m1 prev AND BLOCK_SIZE_MASK)
          in (if after_merged < heap_end s
              then set_prev_size m1 after_merged (get_size m1 prev AND BLOCK_SIZE_MASK)
              else m1)
        else m
      else m)"

definition free :: "heap_state \<Rightarrow> addr \<Rightarrow> heap_state" where
  "free s ptr =
     (if ptr = NULL \<or> heap_start s = NULL then s
      else
        let block = ptr - HEADER_SIZE in
        if block < heap_start s \<or> heap_end s \<le> block then s
        else
          let m1 = set_size (mem s) block (get_size (mem s) block AND NOT BLOCK_USED);
              block_size = get_size m1 block AND BLOCK_SIZE_MASK;
              (m2, block_size1) = coalesce_next s m1 block block_size
          in s\<lparr>mem := coalesce_prev s m2 block block_size1\<rparr>)"

subsection \<open>free with its memory accesses recorded\<close>

text \<open>
  The same function, returning next to the state the list of the accesses it
  makes to memory, in program order; \<open>Load a\<close> and \<open>Store a\<close> are the 32-bit
  read and write of the header field at address \<open>a\<close>.  Every occurrence of
  \<open>block->size\<close>, \<open>next->size\<close>, \<open>prev->size\<close> and \<open>block->prev_size\<close> that the C
  code evaluates is one access, a compound assignment is a read followed by a
  write, and the right operand of \<open>&&\<close> is evaluated only when the left one
  holds.  The variables \<open>heap_start\<close> and \<open>heap_end\<close> are not part of the memory
  a pointer can reach and reading them is not recorded.
\<close>

datatype access = Load addr | Store addr

definition coalesce_next_acc ::
  "heap_state \<Rightarrow> memory \<Rightarrow> addr \<Rightarrow> u32 \<Rightarrow> (memory \<times> u32) \<times> access list" where
  "coalesce_next_acc s m block block_size =
     (let next = block + block_size in
      if next < heap_end s then
        if get_size m next AND BLOCK_USED = 0 then
          let next_size = get_size m next AND BLOCK_SIZE_MASK;
              m1 = set_size m block (get_size m block + next_size);
              block_size1 = block_size + next_size;
              after_merged = block + block_size1
          in if after_merged < heap_end s
             then ((set_prev_size m1 after_merged block_size1, block_size1),
                   [Load next, Load next, Load block, Store block, Store (after_merged + 4)])
             else ((m1, block_size1), [Load next, Load next, Load block, Store block])
        else ((m, block_size), [Load next])
      else ((m, block_size), []))"

definition coalesce_prev_acc ::
  "heap_state \<Rightarrow> memory \<Rightarrow> addr \<Rightarrow> u32 \<Rightarrow> memory \<times> access list" where
  "coalesce_prev_acc s m block block_size =
     (if get_prev_size m block \<noteq> 0 then
        let prev = block - get_prev_size m block in
        if heap_start s \<le> prev then
          if get_size m prev AND BLOCK_USED = 0 then
            let prev_size = get_size m prev AND BLOCK_SIZE_MASK;
                m1 = set_size m prev (prev_size + block_size);
                after_merged = prev + (get_size m1 prev AND BLOCK_SIZE_MASK)
            in if after_merged < heap_end s
               then (set_prev_size m1 after_merged (get_size m1 prev AND BLOCK_SIZE_MASK),
                     [Load (block + 4), Load (block + 4), Load prev, Load prev, Store prev,
                      Load prev, Load prev, Store (after_merged + 4)])
               else (m1, [Load (block + 4), Load (block + 4), Load prev, Load prev, Store prev,
                          Load prev])
          else (m, [Load (block + 4), Load (block + 4), Load prev])
        else (m, [Load (block + 4), Load (block + 4)])
      else (m, [Load (block + 4)]))"

definition free_acc :: "heap_state \<Rightarrow> addr \<Rightarrow> heap_state \<times> access list" where
  "free_acc s ptr =
     (if ptr = NULL \<or> heap_start s = NULL then (s, [])
      else
        let block = ptr - HEADER_SIZE in
        if block < heap_start s \<or> heap_end s \<le> block then (s, [])
        else
          let m1 = set_size (mem s) block (get_size (mem s) block AND NOT BLOCK_USED);
              block_size = get_size m1 block AND BLOCK_SIZE_MASK;
              ((m2, block_size1), acc_next) = coalesce_next_acc s m1 block block_size;
              (m3, acc_prev) = coalesce_prev_acc s m2 block block_size1
          in (s\<lparr>mem := m3\<rparr>, [Load block, Store block, Load block] @ acc_next @ acc_prev))"

definition used_flag :: "bool \<Rightarrow> u32" where
  "used_flag u = (if u then BLOCK_USED else 0)"

subsection \<open>memcpy, memset, realloc and calloc\<close>

function memcpy_words :: "memory \<Rightarrow> addr \<Rightarrow> addr \<Rightarrow> u32 \<Rightarrow> memory \<times> addr \<times> addr \<times> u32" where
  "memcpy_words m d s n =
     (if 4 \<le> n then memcpy_words (store32 m d (load32 m s)) (d + 4) (s + 4) (n - 4)
      else (m, d, s, n))"
  by pat_completeness auto
termination
  by (relation "measure (\<lambda>(m, d, s, n). unat n)") (auto simp: unat_sub word_le_nat_alt)

declare memcpy_words.simps [simp del]

function memcpy_bytes :: "memory \<Rightarrow> addr \<Rightarrow> addr \<Rightarrow> u32 \<Rightarrow> memory" where
  "memcpy_bytes m d s n =
     (if n \<noteq> 0 then memcpy_bytes (m(d := m s)) (d + 1) (s + 1) (n - 1) else m)"
  by pat_completeness auto
termination
  by (relation "measure (\<lambda>(m, d, s, n). unat n)") (auto simp: unat_minus_one unat_gt_0)

declare memcpy_bytes.simps [simp del]

definition memcpy :: "memory \<Rightarrow> addr \<Rightarrow> addr \<Rightarrow> u32 \<Rightarrow> memory" where
  "memcpy m dest src n =
     (if dest AND 3 = 0 \<and> src AND 3 = 0 then
        (case memcpy_words m dest src n of (m1, d, s, n1) \<Rightarrow> memcpy_bytes m1 d s n1)
      else memcpy_bytes m dest src n)"







definition realloc :: "heap_state \<Rightarrow> addr \<Rightarrow> u32 \<Rightarrow> (heap_state \<times> addr) option" where
  "realloc s ptr sz =
     (if ptr = NULL then malloc s sz
      else if sz = 0 then Some (free s ptr, NULL)
      else
        let block = ptr - HEADER_SIZE;
            current_size = (get_size (mem s) block AND BLOCK_SIZE_MASK) - HEADER_SIZE;
            needed = align_size sz
        in if needed \<le> (get_size (mem s) block AND BLOCK_SIZE_MASK) then Some (s, ptr)
           else (case malloc s sz of
                   None \<Rightarrow> None
                 | Some (s1, new_ptr) \<Rightarrow>
                     if new_ptr \<noteq> NULL then
                       let copy_size = (if sz < current_size then sz else current_size)
                       in Some (free (s1\<lparr>mem := memcpy (mem s1) new_ptr ptr copy_size\<rparr>) ptr,
                                new_ptr)
                     else Some (s1, new_ptr)))"

section \<open>The data slot bridge (dataslot.h, dataslot.c)\<close>

text \<open>
  file.c reaches the hardware only through \<open>dataslot_get_size\<close> and
  \<open>dataslot_read\<close>.  The file layer is modelled against that interface:
  \<open>slot_size\<close> gives the return code of \<open>dataslot_get_size\<close> and the value it
  stores through its pointer argument (if any); \<open>slot_read\<close> gives \<open>None\<close>
  when \<open>dataslot_read\<close> returns non-zero and otherwise the bytes it puts into
  the buffer, byte \<open>i\<close> of the buffer for every \<open>i\<close> below the length asked
  for.  \<open>stub_bridge\<close> is the implementation in dataslot.c, where both calls
  report failure.
\<close>

record bridge =
  slot_size :: "16 word \<Rightarrow> 32 word \<times> u32 option"
  slot_read :: "16 word \<Rightarrow> u32 \<Rightarrow> u32 \<Rightarrow> (nat \<Rightarrow> byte) option"


definition write_buffer :: "memory \<Rightarrow> addr \<Rightarrow> (nat \<Rightarrow> byte) \<Rightarrow> u32 \<Rightarrow> memory" where
  "write_buffer m buf bytes len = (\<lambda>a. if a - buf < len then bytes (unat (a - buf)) else m a)"

definition dataslot_read ::
  "bridge \<Rightarrow> memory \<Rightarrow> 16 word \<Rightarrow> u32 \<Rightarrow> addr \<Rightarrow> u32 \<Rightarrow> 32 word \<times> memory" where
  "dataslot_read br m slot_id off buf len =
     (case slot_read br slot_id off len of
        None \<Rightarrow> (- 1, m)
      | Some bytes \<Rightarrow> (0, write_buffer m buf bytes len))"

section \<open>The file layer (libc/file.c)\<close>

text \<open>
  libc.h is not among the sources; \<open>FILE\<close> is taken from its uses in file.c
  (fields \<open>slot_id\<close>, \<open>offset\<close>, \<open>size\<close>, \<open>flags\<close>, \<open>data\<close>, the offset and the
  size being \<open>uint32_t\<close>), and \<open>SEEK_SET\<close>, \<open>SEEK_CUR\<close>, \<open>SEEK_END\<close> and
  \<open>MAP_FAILED\<close> have their customary values.  \<open>long\<close> and \<open>off_t\<close> are 32-bit
  signed integers, read from a word by \<open>sint\<close>.  A \<open>FILE *\<close> argument is a
  \<open>FILE option\<close>, \<open>None\<close> being the null pointer, and a function that writes
  through the pointer returns the updated object.  The parameters that the C
  functions cast to \<open>void\<close> and never read (\<open>mode\<close> of fopen, \<open>flags\<close> of open,
  \<open>addr\<close>, \<open>prot\<close> and \<open>flags\<close> of mmap) are left out; \<open>length\<close> of munmap is
  kept.  \<open>open\<close>, \<open>close\<close> and \<open>read\<close> are \<open>open_fd\<close>, \<open>close_fd\<close> and
  \<open>read_fd\<close> here.
\<close>

record FILE =
  slot_id :: "32 word"
  offset :: u32
  fsize :: u32
  flags :: "32 word"
  data :: addr

definition SEEK_SET :: "32 word" where "SEEK_SET = 0"
definition SEEK_CUR :: "32 word" where "SEEK_CUR = 1"
definition SEEK_END :: "32 word" where "SEEK_END = 2"
definition MAP_FAILED :: addr where "MAP_FAILED = - 1"

definition fread ::
  "bridge \<Rightarrow> memory \<Rightarrow> addr \<Rightarrow> u32 \<Rightarrow> u32 \<Rightarrow> FILE option \<Rightarrow> u32 \<times> memory \<times> FILE option" where
  "fread br m ptr sz nmemb stream =
     (case stream of
        None \<Rightarrow> (0, m, stream)
      | Some f \<Rightarrow>
          if ptr = NULL \<or> sz = 0 \<or> nmemb = 0 then (0, m, stream)
          else
            let total_bytes = sz * nmemb;
                available = fsize f - offset f;
                nmemb1 = (if available < total_bytes then available div sz else nmemb);
                total_bytes1 = (if available < total_bytes then nmemb1 * sz else total_bytes)
            in if total_bytes1 = 0 then (0, m, stream)
               else if data f \<noteq> NULL then
                 (nmemb1, memcpy m ptr (data f + offset f) total_bytes1,
                  Some (f\<lparr>offset := offset f + total_bytes1\<rparr>))
               else
                 (case dataslot_read br m (ucast (slot_id f)) (offset f) ptr total_bytes1 of
                    (rc, m1) \<Rightarrow>
                      if rc \<noteq> 0 then (0, m1, stream)
                      else (nmemb1, m1, Some (f\<lparr>offset := offset f + total_bytes1\<rparr>))))"

definition fseek :: "FILE option \<Rightarrow> 32 word \<Rightarrow> 32 word \<Rightarrow> 32 word \<times> FILE option" where
  "fseek stream off whence =
     (case stream of
        None \<Rightarrow> (- 1, stream)
      | Some f \<Rightarrow>
          if whence \<noteq> SEEK_SET \<and> whence \<noteq> SEEK_CUR \<and> whence \<noteq> SEEK_END then (- 1, stream)
          else
            let new_offset = (if whence = SEEK_SET then off
                              else if whence = SEEK_CUR then offset f + off
                              else fsize f + off)
            in if sint new_offset < 0 \<or> fsize f < new_offset then (- 1, stream)
               else (0, Some (f\<lparr>offset := new_offset\<rparr>)))"



text \<open>The pool of stream handles: \<open>file_table\<close> and \<open>file_table_used\<close>, 4 entries each.\<close>

definition MAX_OPEN_FILES :: nat where "MAX_OPEN_FILES = 4"

record file_pool =
  file_table :: "nat \<Rightarrow> FILE"
  file_table_used :: "nat \<Rightarrow> bool"



definition free_file :: "file_pool \<Rightarrow> nat \<Rightarrow> file_pool" where
  "free_file p i =
     (if i < MAX_OPEN_FILES then p\<lparr>file_table_used := (file_table_used p)(i := False)\<rparr> else p)"


definition fclose :: "file_pool \<Rightarrow> nat option \<Rightarrow> 32 word \<times> file_pool" where
  "fclose p stream = (case stream of None \<Rightarrow> (- 1, p) | Some i \<Rightarrow> (0, free_file p i))"

text \<open>The descriptor table: three arrays of 16 entries indexed by slot identifier.\<close>

record fd_table =
  fd_offset :: "nat \<Rightarrow> u32"
  fd_size :: "nat \<Rightarrow> u32"
  fd_used :: "nat \<Rightarrow> bool"

definition FD_TO_SLOT :: "32 word \<Rightarrow> 32 word" where
  "FD_TO_SLOT fd = - fd - 1"


definition bad_slot :: "fd_table \<Rightarrow> 32 word \<Rightarrow> bool" where
  "bad_slot t slot \<longleftrightarrow> sint slot < 0 \<or> 16 \<le> sint slot \<or> \<not> fd_used t (unat slot)"


definition close_fd :: "fd_table \<Rightarrow> 32 word \<Rightarrow> 32 word \<times> fd_table" where
  "close_fd t fd =
     (let slot = FD_TO_SLOT fd in
      if bad_slot t slot then (- 1, t)
      else (0, t\<lparr>fd_used := (fd_used t)(unat slot := False)\<rparr>))"



definition mmap ::
  "bridge \<Rightarrow> fd_table \<Rightarrow> heap_state \<Rightarrow> u32 \<Rightarrow> 32 word \<Rightarrow> 32 word \<Rightarrow> (heap_state \<times> addr) option" where
  "mmap br t s len fd off =
     (let slot = FD_TO_SLOT fd in
      if bad_slot t slot then Some (s, MAP_FAILED)
      else (case malloc s len of
              None \<Rightarrow> None
            | Some (s1, ptr) \<Rightarrow>
                if ptr = NULL then Some (s1, MAP_FAILED)
                else (case dataslot_read br (mem s1) (ucast slot) off ptr len of
                        (rc, m1) \<Rightarrow>
                          if rc \<noteq> 0 then Some (free (s1\<lparr>mem := m1\<rparr>) ptr, MAP_FAILED)
                          else Some (s1\<lparr>mem := m1\<rparr>, ptr))))"

definition munmap :: "heap_state \<Rightarrow> addr \<Rightarrow> u32 \<Rightarrow> heap_state \<times> 32 word" where
  "munmap s a len = (if a \<noteq> NULL \<and> a \<noteq> MAP_FAILED then (free s a, 0) else (s, 0))"

section \<open>Block layouts\<close>

text \<open>
  A layout lists the blocks of the arena in address order, each with its total
  size in bytes and its used flag.  \<open>walk\<close> recovers it from memory the way
  the scan of malloc moves: from a block to the address \<open>size & BLOCK_SIZE_MASK\<close>
  further on.  It yields \<open>None\<close> when a block has size 0 or when the scan steps
  over the end of the arena instead of landing on it.
\<close>

type_synonym layout = "(nat \<times> bool) list"

definition total_size :: "layout \<Rightarrow> nat" where
  "total_size bs = sum_list (map fst bs)"

function walk :: "memory \<Rightarrow> nat \<Rightarrow> nat \<Rightarrow> layout option" where
  "walk m e a =
     (if e \<le> a then (if a = e then Some [] else None)
      else if unat (get_size m (of_nat a) AND BLOCK_SIZE_MASK) = 0 then None
      else (case walk m e (a + unat (get_size m (of_nat a) AND BLOCK_SIZE_MASK)) of
              None \<Rightarrow> None
            | Some bs \<Rightarrow>
                Some ((unat (get_size m (of_nat a) AND BLOCK_SIZE_MASK),
                       get_size m (of_nat a) AND BLOCK_USED \<noteq> 0) # bs)))"
  by pat_completeness auto
termination
  by (relation "measure (\<lambda>(m, e, a). e - a)") auto

declare walk.simps [simp del]

definition arena_layout :: "heap_state \<Rightarrow> layout option" where
  "arena_layout s = walk (mem s) (unat (heap_end s)) (unat (heap_start s))"

text \<open>The number of blocks of a layout starting at \<open>a\<close> that contain the byte at \<open>x\<close>.\<close>

fun visits :: "nat \<Rightarrow> layout \<Rightarrow> nat \<Rightarrow> nat" where
  "visits a [] x = 0"
| "visits a ((sz, u) # bs) x = (if a \<le> x \<and> x < a + sz then 1 else 0) + visits (a + sz) bs x"

text \<open>The backlinks stored in the headers of the blocks of a layout starting at \<open>a\<close>.\<close>

fun backlinks :: "memory \<Rightarrow> nat \<Rightarrow> layout \<Rightarrow> nat list" where
  "backlinks m a [] = []"
| "backlinks m a ((sz, u) # bs) = unat (get_prev_size m (of_nat a)) # backlinks m (a + sz) bs"

definition arena_backlinks :: "heap_state \<Rightarrow> nat list option" where
  "arena_backlinks s =
     map_option (backlinks (mem s) (unat (heap_start s))) (arena_layout s)"

text \<open>The two fields of the header at address \<open>b\<close>.\<close>

definition header_at :: "addr \<Rightarrow> heap_state \<Rightarrow> u32 \<times> u32" where
  "header_at b s = (get_size (mem s) b, get_prev_size (mem s) b)"

text \<open>
  \<open>chain m a pv bs\<close>: the headers found in \<open>m\<close> from address \<open>a\<close> on are those of
  the blocks \<open>bs\<close>, the block before \<open>a\<close> having size \<open>pv\<close>: every size field is the
  block's size, a multiple of 8, with the used flag in bit 0, and every backlink
  is the size of the block before.
\<close>

fun chain :: "memory \<Rightarrow> nat \<Rightarrow> nat \<Rightarrow> layout \<Rightarrow> bool" where
  "chain m a pv [] = True"
| "chain m a pv ((sz, u) # bs) =
     (get_size m (of_nat a) = of_nat sz OR used_flag u
      \<and> get_prev_size m (of_nat a) = of_nat pv
      \<and> 0 < sz \<and> 8 dvd sz \<and> chain m (a + sz) sz bs)"

definition heap_inv :: "heap_state \<Rightarrow> layout \<Rightarrow> bool" where
  "heap_inv s bs \<longleftrightarrow>
     heap_start s \<noteq> NULL \<and> 8 dvd unat (heap_start s)
     \<and> unat (heap_start s) + total_size bs = unat (heap_end s)
     \<and> unat (heap_end s) + 16 \<le> 2 ^ 32
     \<and> chain (mem s) (unat (heap_start s)) 0 bs"

text \<open>Two memories hold the same bytes at the addresses from \<open>lo\<close> up to \<open>hi\<close>.\<close>

definition agree :: "nat \<Rightarrow> nat \<Rightarrow> memory \<Rightarrow> memory \<Rightarrow> bool" where
  "agree lo hi m m1 \<longleftrightarrow> (\<forall>x. lo \<le> x \<and> x < hi \<longrightarrow> m1 (of_nat x) = m (of_nat x))"

definition last_size :: "nat \<Rightarrow> layout \<Rightarrow> nat" where
  "last_size pv bs = (if bs = [] then pv else fst (last bs))"

text \<open>
  What both coalescing steps of free write when they join two neighbours into
  one block of \<open>t\<close> bytes at address \<open>x\<close>: the new size at \<open>x\<close> and, when a block
  follows, its backlink.
\<close>

definition join_blocks :: "heap_state \<Rightarrow> memory \<Rightarrow> nat \<Rightarrow> nat \<Rightarrow> memory" where
  "join_blocks s m x t =
     (if (of_nat (x + t) :: u32) < heap_end s
      then set_prev_size (set_size m (of_nat x) (of_nat t)) (of_nat (x + t)) (of_nat t)
      else set_size m (of_nat x) (of_nat t))"

fun no_adjacent_free :: "layout \<Rightarrow> bool" where
  "no_adjacent_free [] = True"
| "no_adjacent_free [b] = True"
| "no_adjacent_free ((sz1, u1) # (sz2, u2) # bs) =
     ((u1 \<or> u2) \<and> no_adjacent_free ((sz2, u2) # bs))"

text \<open>The address malloc returns for the block that follows the blocks \<open>pre\<close>.\<close>

definition block_ptr :: "heap_state \<Rightarrow> layout \<Rightarrow> addr" where
  "block_ptr s pre = heap_start s + of_nat (total_size pre) + HEADER_SIZE"

fun used_ptrs :: "addr \<Rightarrow> layout \<Rightarrow> addr list" where
  "used_ptrs a [] = []"
| "used_ptrs a ((sz, u) # bs) =
     (if u then [a + HEADER_SIZE] else []) @ used_ptrs (a + of_nat sz) bs"

text \<open>What the allocator does to a layout.\<close>

definition unfit :: "nat \<Rightarrow> nat \<times> bool \<Rightarrow> bool" where
  "unfit needed b \<longleftrightarrow> snd b \<or> fst b < needed"

definition taken :: "nat \<Rightarrow> nat \<Rightarrow> layout" where
  "taken needed sz =
     (if needed + 16 \<le> sz then [(needed, True), (sz - needed, False)] else [(sz, True)])"

fun alloc_layout :: "nat \<Rightarrow> layout \<Rightarrow> layout" where
  "alloc_layout needed [] = []"
| "alloc_layout needed ((sz, u) # bs) =
     (if unfit needed (sz, u) then (sz, u) # alloc_layout needed bs
      else taken needed sz @ bs)"

definition merge_next :: "nat \<Rightarrow> layout \<Rightarrow> layout" where
  "merge_next sz post =
     (case post of
        (sz2, False) # post2 \<Rightarrow> (sz + sz2, False) # post2
      | _ \<Rightarrow> (sz, False) # post)"

definition merge_prev :: "layout \<Rightarrow> layout \<Rightarrow> layout" where
  "merge_prev pre rest =
     (if pre \<noteq> [] \<and> \<not> snd (last pre)
      then butlast pre @ (fst (last pre) + fst (hd rest), False) # tl rest
      else pre @ rest)"

definition free_layout :: "layout \<Rightarrow> nat \<Rightarrow> layout \<Rightarrow> layout" where
  "free_layout pre sz post = merge_prev pre (merge_next sz post)"

section \<open>Call sequences\<close>

datatype heap_op = Malloc u32 | Free addr

fun run :: "heap_state \<Rightarrow> heap_op list \<Rightarrow> heap_state option" where
  "run s [] = Some s"
| "run s (Malloc n # ops) = (case malloc s n of None \<Rightarrow> None | Some (s1, p) \<Rightarrow> run s1 ops)"
| "run s (Free p # ops) = run (free s p) ops"

text \<open>
  A pointer may be released when it is null, when its header address is
  outside the arena, or when it is the address malloc returned for a block that
  is in use now.
\<close>

definition releasable :: "heap_state \<Rightarrow> addr \<Rightarrow> bool" where
  "releasable s p \<longleftrightarrow>
     p = NULL \<or> p - HEADER_SIZE < heap_start s \<or> heap_end s \<le> p - HEADER_SIZE
     \<or> (case arena_layout s of
           None \<Rightarrow> False
         | Some bs \<Rightarrow> p \<in> set (used_ptrs (heap_start s) bs))"

fun in_contract :: "heap_state \<Rightarrow> heap_op list \<Rightarrow> bool" where
  "in_contract s [] = True"
| "in_contract s (Malloc n # ops) =
     (align_size n \<noteq> 0
      \<and> (case malloc s n of None \<Rightarrow> True | Some (s1, p) \<Rightarrow> in_contract s1 ops))"
| "in_contract s (Free p # ops) = (releasable s p \<and> in_contract (free s p) ops)"

definition heap_init_ok :: "addr \<Rightarrow> u32 \<Rightarrow> bool" where
  "heap_init_ok start sz \<longleftrightarrow>
     start \<noteq> 0
     \<and> unat (((start + ALIGNMENT - 1) AND NOT (ALIGNMENT - 1)) - start) \<le> unat sz
     \<and> unat start + unat sz + 16 \<le> 2 ^ 32"

text \<open>
  A memory given by its non-zero bytes, in address order; concrete memories are
  kept in this form when the code is run on them.
\<close>

definition mem_of :: "(addr \<times> byte) list \<Rightarrow> memory" where
  "mem_of xs = (\<lambda>a. case map_of xs a of None \<Rightarrow> 0 | Some b \<Rightarrow> b)"

fun ins :: "addr \<Rightarrow> byte \<Rightarrow> (addr \<times> byte) list \<Rightarrow> (addr \<times> byte) list" where
  "ins k b [] = [(k, b)]"
| "ins k b ((k1, b1) # xs) = (if k < k1 then (k, b) # (k1, b1) # xs else (k1, b1) # ins k b xs)"

definition put :: "addr \<Rightarrow> byte \<Rightarrow> (addr \<times> byte) list \<Rightarrow> (addr \<times> byte) list" where
  "put k b xs = (if b = 0 then filter (\<lambda>e. fst e \<noteq> k) xs
                 else ins k b (filter (\<lambda>e. fst e \<noteq> k) xs))"

text \<open>The statics of memory.c before heap_init runs, over a zeroed memory.\<close>

definition boot :: heap_state where
  "boot = \<lparr>mem = (\<lambda>a. 0), heap_start = NULL, heap_end = NULL, free_list = NULL\<rparr>"

text \<open>A 64-byte arena at address \<open>0x1000\<close>.\<close>

definition demo_heap :: heap_state where
  "demo_heap = heap_init boot 0x1000 64"









section \<open>Properties\<close>

lemma load32_store32_same: "load32 (store32 m a v) a = v"
  unfolding load32_def store32_def
  apply simp
  apply (rule bit_word_eqI)
  subgoal for n
    apply (cases "n < 8"; cases "n < 16"; cases "n < 24")
    apply (auto simp: bit_simps)
    done
  done

lemma w32_unat_of_nat: "a < 2 ^ 32 \<Longrightarrow> unat (of_nat a :: u32) = a"
  by (simp add: unat_of_nat take_bit_nat_eq_self)

lemma w32_of_nat_inj: "a < 2 ^ 32 \<Longrightarrow> b < 2 ^ 32 \<Longrightarrow> ((of_nat a :: u32) = of_nat b) = (a = b)"
  by (metis w32_unat_of_nat)

lemma w32_less: "a < 2 ^ 32 \<Longrightarrow> b < 2 ^ 32 \<Longrightarrow> ((of_nat a :: u32) < of_nat b) = (a < b)"
  by (simp add: word_less_nat_alt w32_unat_of_nat)

lemma w32_le: "a < 2 ^ 32 \<Longrightarrow> b < 2 ^ 32 \<Longrightarrow> ((of_nat a :: u32) \<le> of_nat b) = (a \<le> b)"
  by (simp add: word_le_nat_alt w32_unat_of_nat)

lemma store32_byte_other:
  assumes "x < a \<or> a + 4 \<le> x" "a + 4 \<le> 2 ^ 32" "x < 2 ^ 32"
  shows "store32 m (of_nat a) v (of_nat x) = m (of_nat x)"
proof -
  have "(of_nat x :: u32) \<noteq> of_nat (a + k)" if "k < 4" for k
    using that assms by (subst w32_of_nat_inj) auto
  from this [of 0] this [of 1] this [of 2] this [of 3]
  have "(of_nat x :: u32) \<noteq> of_nat a" "(of_nat x :: u32) \<noteq> of_nat a + 1"
    "(of_nat x :: u32) \<noteq> of_nat a + 2" "(of_nat x :: u32) \<noteq> of_nat a + 3"
    by (simp_all add: add.commute)
  then show ?thesis by (simp add: store32_def)
qed

lemma load32_cong:
  assumes "\<And>k. k < 4 \<Longrightarrow> m1 (of_nat (a + k)) = m2 (of_nat (a + k))"
  shows "load32 m1 (of_nat a) = load32 m2 (of_nat a)"
  using assms [of 0] assms [of 1] assms [of 2] assms [of 3]
  by (simp add: load32_def add.commute)

lemma load32_store32_other:
  assumes "b + 4 \<le> a \<or> a + 4 \<le> b" "a + 4 \<le> 2 ^ 32" "b + 4 \<le> 2 ^ 32"
  shows "load32 (store32 m (of_nat a) v) (of_nat b) = load32 m (of_nat b)"
proof (rule load32_cong)
  fix k :: nat assume "k < 4"
  with assms show "store32 m (of_nat a) v (of_nat (b + k)) = m (of_nat (b + k))"
    by (intro store32_byte_other) auto
qed



lemma three_mask: "(3 :: u32) = mask 2" by (simp add: mask_eq_exp_minus_1)
lemma seven_mask: "(7 :: u32) = mask 3" by (simp add: mask_eq_exp_minus_1)

lemma of_nat_8dvd: "8 dvd sz \<Longrightarrow> \<exists>k :: u32. of_nat sz = push_bit 3 k"
proof -
  assume "8 dvd sz"
  then obtain j where "sz = 8 * j" by (auto simp: dvd_def)
  then have "(of_nat sz :: u32) = push_bit 3 (of_nat j)" by (simp add: push_bit_eq_mult)
  then show ?thesis by blast
qed

lemma hdr_mask: "8 dvd sz \<Longrightarrow> (of_nat sz OR used_flag u) AND BLOCK_SIZE_MASK = of_nat sz"
proof -
  assume "8 dvd sz"
  then obtain k :: u32 where k: "of_nat sz = push_bit 3 k" using of_nat_8dvd by blast
  show ?thesis unfolding k used_flag_def BLOCK_SIZE_MASK_def BLOCK_USED_def three_mask
    by (rule bit_word_eqI) (auto simp: bit_simps)
qed

lemma hdr_used: "8 dvd sz \<Longrightarrow> ((of_nat sz OR used_flag u) AND BLOCK_USED = 0) = (\<not> u)"
proof -
  assume "8 dvd sz"
  then obtain k :: u32 where k: "of_nat sz = push_bit 3 k" using of_nat_8dvd by blast
  have "(push_bit 3 k OR (1::u32)) AND 1 = 1"
    by (rule bit_word_eqI) (auto simp: bit_simps)
  moreover have "push_bit 3 k AND (1::u32) = 0"
    by (rule bit_word_eqI) (auto simp: bit_simps)
  ultimately show ?thesis unfolding k used_flag_def BLOCK_USED_def by simp
qed

lemma hdr_clear: "8 dvd sz \<Longrightarrow> (of_nat sz OR used_flag u) AND NOT BLOCK_USED = of_nat sz"
proof -
  assume "8 dvd sz"
  then obtain k :: u32 where k: "of_nat sz = push_bit 3 k" using of_nat_8dvd by blast
  show ?thesis unfolding k used_flag_def BLOCK_USED_def
    by (rule bit_word_eqI) (auto simp: bit_simps)
qed

lemma hdr_set: "(w OR used_flag u) OR BLOCK_USED = w OR used_flag True"
  by (simp add: used_flag_def BLOCK_USED_def or.assoc)

lemma hdr_free: "w OR used_flag False = w"
  by (simp add: used_flag_def)

lemma and_not7_dvd: "8 dvd unat ((x :: u32) AND NOT 7)"
proof -
  have "x AND NOT 7 = push_bit 3 (drop_bit 3 x)"
    unfolding seven_mask by (rule bit_word_eqI) (auto simp: bit_simps)
  then have "take_bit 3 (x AND NOT 7) = 0"
    by (simp add: take_bit_push_bit)
  then have "take_bit 3 (unat (x AND NOT 7)) = 0"
    by (simp add: unsigned_take_bit_eq [symmetric] del: unsigned_take_bit_eq)
  then show ?thesis by (simp add: take_bit_eq_0_iff)
qed


lemma agree_refl: "agree lo hi m m"
  by (simp add: agree_def)

lemma agree_trans: "agree lo hi m m1 \<Longrightarrow> agree lo hi m1 m2 \<Longrightarrow> agree lo hi m m2"
  by (simp add: agree_def)

lemma agree_mono: "agree lo hi m m1 \<Longrightarrow> lo \<le> lo1 \<Longrightarrow> hi1 \<le> hi \<Longrightarrow> agree lo1 hi1 m m1"
  by (simp add: agree_def)

lemma agree_store32:
  "x + 4 \<le> lo \<or> hi \<le> x \<Longrightarrow> x + 4 \<le> 2 ^ 32 \<Longrightarrow> hi \<le> 2 ^ 32
     \<Longrightarrow> agree lo hi m (store32 m (of_nat x) v)"
  unfolding agree_def by (auto intro!: store32_byte_other)

lemma load32_agree: "agree a (a + 4) m m1 \<Longrightarrow> load32 m1 (of_nat a) = load32 m (of_nat a)"
  by (rule load32_cong) (simp add: agree_def del: of_nat_add)

lemma get_size_agree:
  "agree a (a + 4) m m1 \<Longrightarrow> get_size m1 (of_nat a) = get_size m (of_nat a)"
  by (simp add: get_size_def load32_agree)

lemma get_prev_size_agree:
  "agree (a + 4) (a + 8) m m1 \<Longrightarrow> get_prev_size m1 (of_nat a) = get_prev_size m (of_nat a)"
  using load32_agree [of "a + 4" m m1] by (simp add: get_prev_size_def add.commute)

lemma agree_set_size:
  "x + 4 \<le> lo \<or> hi \<le> x \<Longrightarrow> x + 4 \<le> 2 ^ 32 \<Longrightarrow> hi \<le> 2 ^ 32
     \<Longrightarrow> agree lo hi m (set_size m (of_nat x) v)"
  by (simp add: set_size_def agree_store32)

lemma agree_set_prev_size:
  "x + 8 \<le> lo \<or> hi \<le> x + 4 \<Longrightarrow> x + 8 \<le> 2 ^ 32 \<Longrightarrow> hi \<le> 2 ^ 32
     \<Longrightarrow> agree lo hi m (set_prev_size m (of_nat x) v)"
  using agree_store32 [of "x + 4" lo hi m v] by (simp add: set_prev_size_def add.commute)

lemma get_size_set_size: "get_size (set_size m a v) a = v"
  by (simp add: get_size_def set_size_def load32_store32_same)

lemma get_prev_size_set_prev_size: "get_prev_size (set_prev_size m a v) a = v"
  by (simp add: get_prev_size_def set_prev_size_def load32_store32_same)

lemma total_size_simps [simp]:
  "total_size [] = 0" "total_size ((sz, u) # bs) = sz + total_size bs"
  "total_size (xs @ ys) = total_size xs + total_size ys"
  by (simp_all add: total_size_def)

lemma chain_agree:
  "chain m a pv bs \<Longrightarrow> agree a (a + total_size bs) m m1 \<Longrightarrow> chain m1 a pv bs"
proof (induction bs arbitrary: a pv)
  case Nil
  then show ?case by simp
next
  case (Cons b bs)
  obtain sz u where b: "b = (sz, u)" by (cases b)
  from Cons.prems b have sz: "8 \<le> sz" by (auto elim: dvdE)
  from Cons.prems(2) sz b have
    "agree a (a + 4) m m1" "agree (a + 4) (a + 8) m m1"
    "agree (a + sz) (a + sz + total_size bs) m m1"
    by (auto elim!: agree_mono)
  with Cons.prems(1) Cons.IH [of "a + sz" sz] b show ?case
    by (simp add: get_size_agree get_prev_size_agree del: of_nat_add)
qed


lemma chain_append:
  "chain m a pv (xs @ ys) \<longleftrightarrow>
     chain m a pv xs \<and> chain m (a + total_size xs) (last_size pv xs) ys"
proof (induction xs arbitrary: a pv)
  case Nil
  then show ?case by (simp add: last_size_def)
next
  case (Cons x xs)
  obtain sz u where x: "x = (sz, u)" by (cases x)
  show ?case using Cons.IH [of "a + sz" sz]
    by (auto simp: x last_size_def add.assoc simp del: of_nat_add)
qed

lemma hdr_mask_plain: "8 dvd sz \<Longrightarrow> of_nat sz AND BLOCK_SIZE_MASK = (of_nat sz :: u32)"
  using hdr_mask [of sz False] by (simp add: hdr_free)

lemma gs_ss_other:
  "y + 4 \<le> x \<or> x + 4 \<le> y \<Longrightarrow> x + 4 \<le> 2 ^ 32 \<Longrightarrow> y + 4 \<le> 2 ^ 32
     \<Longrightarrow> get_size (set_size m (of_nat x) v) (of_nat y) = get_size m (of_nat y)"
  by (intro get_size_agree agree_set_size) auto

lemma gs_sp_other:
  "y \<le> x \<or> x + 8 \<le> y \<Longrightarrow> x + 8 \<le> 2 ^ 32 \<Longrightarrow> y + 4 \<le> 2 ^ 32
     \<Longrightarrow> get_size (set_prev_size m (of_nat x) v) (of_nat y) = get_size m (of_nat y)"
  by (intro get_size_agree agree_set_prev_size) auto

lemma gp_sp_other:
  "y + 4 \<le> x \<or> x + 4 \<le> y \<Longrightarrow> x + 8 \<le> 2 ^ 32 \<Longrightarrow> y + 8 \<le> 2 ^ 32
     \<Longrightarrow> get_prev_size (set_prev_size m (of_nat x) v) (of_nat y) = get_prev_size m (of_nat y)"
  by (intro get_prev_size_agree agree_set_prev_size) auto

lemma gp_ss_other:
  "y + 8 \<le> x \<or> x \<le> y \<Longrightarrow> x + 4 \<le> 2 ^ 32 \<Longrightarrow> y + 8 \<le> 2 ^ 32
     \<Longrightarrow> get_prev_size (set_size m (of_nat x) v) (of_nat y) = get_prev_size m (of_nat y)"
  by (intro get_prev_size_agree agree_set_size) auto

lemma chain_set_size:
  "chain m a pv bs \<Longrightarrow> x + 4 \<le> a \<or> a + total_size bs \<le> x \<Longrightarrow> x + 4 \<le> 2 ^ 32
     \<Longrightarrow> a + total_size bs \<le> 2 ^ 32 \<Longrightarrow> chain (set_size m (of_nat x) v) a pv bs"
  by (erule chain_agree) (intro agree_set_size, auto)

lemma chain_set_prev_size:
  "chain m a pv bs \<Longrightarrow> x + 8 \<le> a \<or> a + total_size bs \<le> x + 4 \<Longrightarrow> x + 8 \<le> 2 ^ 32
     \<Longrightarrow> a + total_size bs \<le> 2 ^ 32 \<Longrightarrow> chain (set_prev_size m (of_nat x) v) a pv bs"
  by (erule chain_agree) (intro agree_set_prev_size, auto)

lemma pos8: "0 < sz \<Longrightarrow> 8 dvd sz \<Longrightarrow> (8::nat) \<le> sz"
  using dvd_imp_le [of 8 sz] by simp

lemma chain_total_pos:
  assumes "chain m a pv bs" "bs \<noteq> []"
  shows "8 \<le> total_size bs"
proof (cases bs)
  case Nil
  with assms show ?thesis by simp
next
  case (Cons b list)
  obtain sz u where b: "b = (sz, u)" by (cases b)
  from assms Cons b have "0 < sz" "8 dvd sz" by auto
  then have "8 \<le> sz" by (rule pos8)
  with Cons b show ?thesis by simp
qed

lemma w32_less_unat: "x < 2 ^ 32 \<Longrightarrow> ((of_nat x :: u32) < w) = (x < unat w)"
  by (simp add: word_less_nat_alt w32_unat_of_nat)

lemma w32_le_unat: "x < 2 ^ 32 \<Longrightarrow> (w \<le> (of_nat x :: u32)) = (unat w \<le> x)"
  by (simp add: word_le_nat_alt w32_unat_of_nat)

lemma take_block_split:
  assumes ch: "chain (mem s) a pv ((sz, False) # post)"
    and e: "a + sz + total_size post = unat (heap_end s)"
    and top: "unat (heap_end s) + 16 \<le> 2 ^ 32"
    and nd: "8 dvd nd" "0 < nd" "nd + 16 \<le> sz"
  shows "chain (mem (take_block s (of_nat nd) (of_nat a) (of_nat sz))) a pv
           ((nd, True) # (sz - nd, False) # post)"
    and "agree 0 a (mem s) (mem (take_block s (of_nat nd) (of_nat a) (of_nat sz)))"
    and "agree (a + sz + 8) (2 ^ 32) (mem s) (mem (take_block s (of_nat nd) (of_nat a) (of_nat sz)))"
proof -
  let ?m = "mem s"
  define m1 where "m1 = set_size ?m (of_nat (a + nd)) (of_nat (sz - nd))"
  define m2 where "m2 = set_prev_size m1 (of_nat (a + nd)) (of_nat nd)"
  define m3 where "m3 = (if post \<noteq> [] then set_prev_size m2 (of_nat (a + sz)) (of_nat (sz - nd)) else m2)"
  define m4 where "m4 = set_size m3 (of_nat a) (of_nat nd OR BLOCK_USED)"
  from ch have sz: "8 dvd sz" "0 < sz" and chp: "chain ?m (a + sz) sz post" by auto
  from nd have nd8: "8 \<le> nd" by (auto dest: dvd_imp_le)
  have bnd: "a + sz + total_size post + 16 \<le> 2 ^ 32" using e top by simp
  have d: "8 dvd (sz - nd)" using sz nd by (simp add: dvd_diff_nat)
  have c1: "(of_nat nd :: u32) + MIN_BLOCK_SIZE \<le> of_nat sz"
  proof -
    have "(of_nat nd :: u32) + MIN_BLOCK_SIZE = of_nat (nd + 16)" by (simp add: MIN_BLOCK_SIZE_def)
    then show ?thesis using nd bnd by (simp only: ) (subst w32_le, auto)
  qed
  have gs2: "get_size m2 (of_nat (a + nd)) = of_nat (sz - nd)"
    unfolding m2_def m1_def using bnd nd
    by (subst gs_sp_other) (auto simp: get_size_set_size simp del: of_nat_add)
  have an: "(of_nat (a + nd) :: u32) + of_nat (sz - nd) = of_nat (a + sz)"
    using nd by (simp del: of_nat_add of_nat_diff add: of_nat_add [symmetric])
  have lt: "((of_nat (a + sz) :: u32) < heap_end s) = (post \<noteq> [])"
  proof -
    have "((of_nat (a + sz) :: u32) < heap_end s) = (a + sz < unat (heap_end s))"
      using bnd nd nd8 by (intro w32_less_unat) simp
    also have "\<dots> = (post \<noteq> [])" using e chain_total_pos [OF chp] by (cases post) auto
    finally show ?thesis .
  qed
  have sub: "(of_nat sz :: u32) - of_nat nd = of_nat (sz - nd)" using nd by simp
  have tb: "take_block s (of_nat nd) (of_nat a) (of_nat sz) = s\<lparr>mem := m4\<rparr>"
    unfolding take_block_def
    using c1 gs2 an lt d
    apply (simp add: Let_def m4_def m3_def m2_def m1_def hdr_mask_plain sub add.assoc)
    done
  have ag3: "agree lo hi m2 m3" if "a + sz + 8 \<le> lo \<or> hi \<le> a + sz + 4" "hi \<le> 2 ^ 32" for lo hi
  proof (cases "post = []")
    case True
    then show ?thesis by (simp add: m3_def agree_refl)
  next
    case False
    then have "m3 = set_prev_size m2 (of_nat (a + sz)) (of_nat (sz - nd))"
      by (simp only: m3_def if_True not_False_eq_True)
    then show ?thesis using that bnd nd nd8 by (simp only:) (intro agree_set_prev_size, auto)
  qed
  have ag_lo: "agree 0 a ?m m4"
  proof -
    have "agree 0 a ?m m1" unfolding m1_def using bnd nd nd8 by (intro agree_set_size) auto
    moreover have "agree 0 a m1 m2" unfolding m2_def using bnd nd nd8 by (intro agree_set_prev_size) auto
    moreover have "agree 0 a m2 m3" using bnd nd nd8 by (intro ag3) auto
    moreover have "agree 0 a m3 m4" unfolding m4_def using bnd nd nd8 by (intro agree_set_size) auto
    ultimately show ?thesis by (blast intro: agree_trans)
  qed
  have ag_hi: "agree (a + sz + 8) (2 ^ 32) ?m m4"
  proof -
    have "agree (a + sz + 8) (2 ^ 32) ?m m1" unfolding m1_def using bnd nd nd8 by (intro agree_set_size) auto
    moreover have "agree (a + sz + 8) (2 ^ 32) m1 m2" unfolding m2_def using bnd nd nd8 by (intro agree_set_prev_size) auto
    moreover have "agree (a + sz + 8) (2 ^ 32) m2 m3" using bnd nd nd8 by (intro ag3) auto
    moreover have "agree (a + sz + 8) (2 ^ 32) m3 m4" unfolding m4_def using bnd nd nd8 by (intro agree_set_size) auto
    ultimately show ?thesis by (blast intro: agree_trans)
  qed
  have h1: "get_size m4 (of_nat a) = of_nat nd OR used_flag True"
    by (simp add: m4_def get_size_set_size used_flag_def)
  have h2: "get_prev_size m4 (of_nat a) = of_nat pv"
  proof -
    have "agree (a + 4) (a + 8) ?m m1" unfolding m1_def using bnd nd nd8 by (intro agree_set_size) auto
    moreover have "agree (a + 4) (a + 8) m1 m2" unfolding m2_def using bnd nd nd8 by (intro agree_set_prev_size) auto
    moreover have "agree (a + 4) (a + 8) m2 m3" using bnd nd nd8 by (intro ag3) auto
    moreover have "agree (a + 4) (a + 8) m3 m4" unfolding m4_def using bnd nd nd8 by (intro agree_set_size) auto
    ultimately have "agree (a + 4) (a + 8) ?m m4" by (blast intro: agree_trans)
    then have "get_prev_size m4 (of_nat a) = get_prev_size ?m (of_nat a)" by (rule get_prev_size_agree)
    with ch show ?thesis by simp
  qed
  have h3: "get_size m4 (of_nat (a + nd)) = of_nat (sz - nd) OR used_flag False"
  proof -
    have "agree (a + nd) (a + nd + 4) m2 m3" using bnd nd nd8 by (intro ag3) auto
    moreover have "agree (a + nd) (a + nd + 4) m3 m4" unfolding m4_def using bnd nd nd8 by (intro agree_set_size) auto
    ultimately have "agree (a + nd) (a + nd + 4) m2 m4" by (blast intro: agree_trans)
    then have "get_size m4 (of_nat (a + nd)) = get_size m2 (of_nat (a + nd))" by (rule get_size_agree)
    with gs2 show ?thesis by (simp add: hdr_free)
  qed
  have h4: "get_prev_size m4 (of_nat (a + nd)) = of_nat nd"
  proof -
    have "agree (a + nd + 4) (a + nd + 8) m2 m3" using bnd nd nd8 by (intro ag3) auto
    moreover have "agree (a + nd + 4) (a + nd + 8) m3 m4" unfolding m4_def using bnd nd nd8 by (intro agree_set_size) auto
    ultimately have "agree (a + nd + 4) (a + nd + 8) m2 m4" by (blast intro: agree_trans)
    then have "get_prev_size m4 (of_nat (a + nd)) = get_prev_size m2 (of_nat (a + nd))" by (rule get_prev_size_agree)
    then show ?thesis by (simp add: m2_def get_prev_size_set_prev_size)
  qed
  have h5: "chain m4 (a + sz) (sz - nd) post"
  proof (cases post)
    case Nil
    then show ?thesis by simp
  next
    case (Cons b post2)
    obtain sz2 u2 where b: "b = (sz2, u2)" by (cases b)
    from chp Cons b have p2: "get_size ?m (of_nat (a + sz)) = of_nat sz2 OR used_flag u2"
      "0 < sz2" "8 dvd sz2" "chain ?m (a + sz + sz2) sz2 post2" by auto
    then have sz28: "8 \<le> sz2" by (auto intro: pos8)
    have bnd2: "a + sz + sz2 + total_size post2 + 16 \<le> 2 ^ 32" using bnd Cons b by simp
    have m3: "m3 = set_prev_size m2 (of_nat (a + sz)) (of_nat (sz - nd))"
      using Cons by (simp only: m3_def list.distinct if_True not_False_eq_True)
    have "agree (a + sz) (a + sz + 4) ?m m1" unfolding m1_def using bnd2 nd nd8 by (intro agree_set_size) auto
    moreover have "agree (a + sz) (a + sz + 4) m1 m2" unfolding m2_def using bnd2 nd nd8 by (intro agree_set_prev_size) auto
    moreover have "agree (a + sz) (a + sz + 4) m2 m3" using bnd2 nd nd8 by (intro ag3) auto
    moreover have "agree (a + sz) (a + sz + 4) m3 m4" unfolding m4_def using bnd2 nd nd8 by (intro agree_set_size) auto
    ultimately have "agree (a + sz) (a + sz + 4) ?m m4" by (blast intro: agree_trans)
    then have q1: "get_size m4 (of_nat (a + sz)) = get_size ?m (of_nat (a + sz))" by (rule get_size_agree)
    have "agree (a + sz + 4) (a + sz + 8) m3 m4" unfolding m4_def using bnd2 nd nd8 by (intro agree_set_size) auto
    then have "get_prev_size m4 (of_nat (a + sz)) = get_prev_size m3 (of_nat (a + sz))" by (rule get_prev_size_agree)
    then have q2: "get_prev_size m4 (of_nat (a + sz)) = of_nat (sz - nd)"
      by (simp add: m3 get_prev_size_set_prev_size)
    have "agree (a + sz + sz2) (a + sz + sz2 + total_size post2) ?m m4"
      using ag_hi bnd2 sz28 by (auto elim!: agree_mono)
    with p2(4) have q3: "chain m4 (a + sz + sz2) sz2 post2" by (rule chain_agree)
    from q1 q2 q3 p2 Cons b show ?thesis by (simp del: of_nat_add)
  qed
  have eq: "a + nd + (sz - nd) = a + sz" using nd by simp
  show "chain (mem (take_block s (of_nat nd) (of_nat a) (of_nat sz))) a pv
           ((nd, True) # (sz - nd, False) # post)"
    using h1 h2 h3 h4 h5 nd d by (simp add: tb eq del: of_nat_add)
  show "agree 0 a (mem s) (mem (take_block s (of_nat nd) (of_nat a) (of_nat sz)))"
    using ag_lo by (simp add: tb)
  show "agree (a + sz + 8) (2 ^ 32) (mem s) (mem (take_block s (of_nat nd) (of_nat a) (of_nat sz)))"
    using ag_hi by (simp add: tb)
qed

lemma take_block_whole:
  assumes ch: "chain (mem s) a pv ((sz, False) # post)"
    and e: "a + sz + total_size post = unat (heap_end s)"
    and top: "unat (heap_end s) + 16 \<le> 2 ^ 32"
    and nd: "nd \<le> sz" "\<not> nd + 16 \<le> sz" and a: "0 < a"
  shows "chain (mem (take_block s (of_nat nd) (of_nat a) (of_nat sz))) a pv ((sz, True) # post)"
    and "agree 0 a (mem s) (mem (take_block s (of_nat nd) (of_nat a) (of_nat sz)))"
    and "agree (a + 4) (2 ^ 32) (mem s) (mem (take_block s (of_nat nd) (of_nat a) (of_nat sz)))"
proof -
  let ?m = "mem s"
  define m1 where "m1 = set_size ?m (of_nat a) (of_nat sz OR used_flag True)"
  from ch have sz: "8 dvd sz" "0 < sz" and chp: "chain ?m (a + sz) sz post"
    and raw: "get_size ?m (of_nat a) = of_nat sz" by (auto simp: hdr_free)
  have bnd: "a + sz + total_size post + 16 \<le> 2 ^ 32" using e top by simp
  have c1: "\<not> (of_nat nd :: u32) + MIN_BLOCK_SIZE \<le> of_nat sz"
  proof -
    have "(of_nat nd :: u32) + MIN_BLOCK_SIZE = of_nat (nd + 16)" by (simp add: MIN_BLOCK_SIZE_def)
    then show ?thesis using nd bnd a by (simp only: ) (subst w32_le, auto)
  qed
  have tb: "take_block s (of_nat nd) (of_nat a) (of_nat sz) = s\<lparr>mem := m1\<rparr>"
    unfolding take_block_def using c1 raw
    by (simp add: m1_def used_flag_def)
  have ag_lo: "agree 0 a ?m m1" unfolding m1_def using bnd by (intro agree_set_size) auto
  have a4: "a + 4 \<le> 2 ^ 32" using bnd by simp
  have ag_hi: "agree (a + 4) (2 ^ 32) ?m m1"
    unfolding m1_def by (rule agree_set_size) (use a4 in simp_all)
  have "get_prev_size m1 (of_nat a) = get_prev_size ?m (of_nat a)"
    using ag_hi bnd by (intro get_prev_size_agree) (auto elim!: agree_mono)
  moreover have "chain m1 (a + sz) sz post"
  proof (rule chain_agree [OF chp])
    from sz have "8 \<le> sz" by (auto intro: pos8)
    then show "agree (a + sz) (a + sz + total_size post) ?m m1"
      using ag_hi bnd by (auto elim!: agree_mono)
  qed
  ultimately show "chain (mem (take_block s (of_nat nd) (of_nat a) (of_nat sz))) a pv ((sz, True) # post)"
    using ch by (simp add: tb m1_def get_size_set_size del: of_nat_add)
  show "agree 0 a (mem s) (mem (take_block s (of_nat nd) (of_nat a) (of_nat sz)))"
    using ag_lo by (simp add: tb)
  show "agree (a + 4) (2 ^ 32) (mem s) (mem (take_block s (of_nat nd) (of_nat a) (of_nat sz)))"
    using ag_hi by (simp add: tb)
qed

lemma take_block_fields [simp]:
  "heap_start (take_block s n b z) = heap_start s"
  "heap_end (take_block s n b z) = heap_end s"
  "free_list (take_block s n b z) = free_list s"
  by (simp_all add: take_block_def Let_def)

lemma take_block_taken:
  assumes ch: "chain (mem s) a pv ((sz, False) # post)"
    and e: "a + sz + total_size post = unat (heap_end s)"
    and top: "unat (heap_end s) + 16 \<le> 2 ^ 32"
    and nd: "8 dvd nd" "0 < nd" "nd \<le> sz" and a: "0 < a"
  shows "chain (mem (take_block s (of_nat nd) (of_nat a) (of_nat sz))) a pv (taken nd sz @ post)"
    and "agree 0 a (mem s) (mem (take_block s (of_nat nd) (of_nat a) (of_nat sz)))"
    and "agree (a + sz + 8) (2 ^ 32) (mem s) (mem (take_block s (of_nat nd) (of_nat a) (of_nat sz)))"
proof -
  show "chain (mem (take_block s (of_nat nd) (of_nat a) (of_nat sz))) a pv (taken nd sz @ post)"
    using take_block_split(1) [OF ch e top nd(1,2)] take_block_whole(1) [OF ch e top nd(3) _ a]
    by (cases "nd + 16 \<le> sz") (simp_all add: taken_def)
  show "agree 0 a (mem s) (mem (take_block s (of_nat nd) (of_nat a) (of_nat sz)))"
    using take_block_split(2) [OF ch e top nd(1,2)] take_block_whole(2) [OF ch e top nd(3) _ a]
    by (cases "nd + 16 \<le> sz") simp_all
  show "agree (a + sz + 8) (2 ^ 32) (mem s) (mem (take_block s (of_nat nd) (of_nat a) (of_nat sz)))"
    using take_block_split(3) [OF ch e top nd(1,2)] take_block_whole(3) [OF ch e top nd(3) _ a]
    by (cases "nd + 16 \<le> sz") (auto elim!: agree_mono)
qed

lemma malloc_loop_scan:
  assumes "chain (mem s) a pv bs" "a + total_size bs = unat (heap_end s)"
    and "nd < 2 ^ 32"
  shows "malloc_loop s (of_nat nd) (of_nat a) =
           (case dropWhile (unfit nd) bs of
              [] \<Rightarrow> Some (s, NULL)
            | b # post \<Rightarrow>
                Some (take_block s (of_nat nd)
                        (of_nat (a + total_size (takeWhile (unfit nd) bs))) (of_nat (fst b)),
                      of_nat (a + total_size (takeWhile (unfit nd) bs)) + HEADER_SIZE))"
  using assms
proof (induction bs arbitrary: a pv)
  case Nil
  then have "\<not> (of_nat a :: u32) < heap_end s" by (simp add: word_less_nat_alt)
  then show ?case by (subst malloc_loop.simps) simp
next
  case (Cons b bs)
  obtain sz u where b: "b = (sz, u)" by (cases b)
  from Cons.prems b have hd: "get_size (mem s) (of_nat a) = of_nat sz OR used_flag u"
    "0 < sz" "8 dvd sz" and ch: "chain (mem s) (a + sz) sz bs"
    and e: "a + sz + total_size bs = unat (heap_end s)" by (auto simp: add.assoc)
  have lt32: "unat (heap_end s) < 2 ^ 32" using unsigned_less [of "heap_end s"] by simp
  have lt: "(of_nat a :: u32) < heap_end s"
    using e hd(2) lt32 by (subst w32_less_unat) auto
  have fit: "(of_nat nd \<le> (of_nat sz :: u32)) = (nd \<le> sz)"
    using e lt32 Cons.prems(3) by (intro w32_le) auto
  have usedz: "(get_size (mem s) (of_nat a) AND BLOCK_USED = 0) = (\<not> u)"
    using hd by (simp add: hdr_used)
  have msk: "get_size (mem s) (of_nat a) AND BLOCK_SIZE_MASK = of_nat sz"
    using hd by (simp add: hdr_mask)
  show ?case
  proof (cases "unfit nd (sz, u)")
    case True
    then have "malloc_loop s (of_nat nd) (of_nat a) = malloc_loop s (of_nat nd) (of_nat (a + sz))"
      using lt by (subst malloc_loop.simps) (auto simp: usedz msk fit unfit_def)
    also note Cons.IH [OF ch e Cons.prems(3)]
    finally have *: "malloc_loop s (of_nat nd) (of_nat a) =
         (case dropWhile (unfit nd) bs of
            [] \<Rightarrow> Some (s, NULL)
          | b # post \<Rightarrow>
              Some (take_block s (of_nat nd)
                      (of_nat (a + sz + total_size (takeWhile (unfit nd) bs))) (of_nat (fst b)),
                    of_nat (a + sz + total_size (takeWhile (unfit nd) bs)) + HEADER_SIZE))" .
    have dw: "dropWhile (unfit nd) ((sz, u) # bs) = dropWhile (unfit nd) bs" using True by simp
    have tw: "a + total_size (takeWhile (unfit nd) ((sz, u) # bs))
                = a + sz + total_size (takeWhile (unfit nd) bs)" using True by simp
    show ?thesis unfolding b dw tw by (rule *)
  next
    case False
    then show ?thesis
      using lt unfolding b by (subst malloc_loop.simps) (auto simp: usedz msk fit unfit_def)
  qed
qed

lemma join_blocks_chain:
  assumes ch: "chain m x pv ((s1, u1) # (s2, u2) # post)"
    and e: "x + s1 + s2 + total_size post = unat (heap_end s)"
    and top: "unat (heap_end s) + 16 \<le> 2 ^ 32"
  shows "chain (join_blocks s m x (s1 + s2)) x pv ((s1 + s2, False) # post)"
    and "agree 0 x m (join_blocks s m x (s1 + s2))"
    and "agree (x + s1 + s2 + 8) (2 ^ 32) m (join_blocks s m x (s1 + s2))"
proof -
  let ?t = "s1 + s2"
  define m1 where "m1 = set_size m (of_nat x) (of_nat ?t)"
  define m2 where "m2 = join_blocks s m x ?t"
  from ch have s1: "0 < s1" "8 dvd s1" and s2: "0 < s2" "8 dvd s2"
    and pv: "get_prev_size m (of_nat x) = of_nat pv"
    and chp: "chain m (x + s1 + s2) s2 post" by auto
  from s1 s2 have s18: "8 \<le> s1" and s28: "8 \<le> s2" by (auto intro: pos8)
  have bnd: "x + s1 + s2 + total_size post + 16 \<le> 2 ^ 32" using e top by simp
  have lt: "((of_nat (x + ?t) :: u32) < heap_end s) = (post \<noteq> [])"
  proof -
    have "((of_nat (x + ?t) :: u32) < heap_end s) = (x + ?t < unat (heap_end s))"
      using bnd by (intro w32_less_unat) simp
    also have "\<dots> = (post \<noteq> [])" using e chain_total_pos [OF chp] by (cases post) auto
    finally show ?thesis .
  qed
  have m2: "m2 = (if post \<noteq> [] then set_prev_size m1 (of_nat (x + ?t)) (of_nat ?t) else m1)"
    unfolding m2_def join_blocks_def m1_def lt by simp
  have ag1: "agree lo hi m m1" if "x + 4 \<le> lo \<or> hi \<le> x" "hi \<le> 2 ^ 32" for lo hi
    unfolding m1_def using that bnd by (intro agree_set_size) auto
  have ag2: "agree lo hi m1 m2" if "x + ?t + 8 \<le> lo \<or> hi \<le> x + ?t + 4" "hi \<le> 2 ^ 32" for lo hi
  proof (cases "post = []")
    case True
    then show ?thesis by (simp add: m2 agree_refl)
  next
    case False
    then have "m2 = set_prev_size m1 (of_nat (x + ?t)) (of_nat ?t)"
      by (simp only: m2 if_True not_False_eq_True)
    then show ?thesis using that bnd by (simp only:) (intro agree_set_prev_size, auto)
  qed
  have ag: "agree lo hi m m2" if "x + ?t + 8 \<le> lo \<or> hi \<le> x \<or> (x + 4 \<le> lo \<and> hi \<le> x + ?t + 4)" "hi \<le> 2 ^ 32" for lo hi
    using that by (intro agree_trans [OF ag1 ag2]) auto
  have h1: "get_size m2 (of_nat x) = of_nat ?t OR used_flag False"
  proof -
    have "get_size m2 (of_nat x) = get_size m1 (of_nat x)"
      using bnd s18 by (intro get_size_agree ag2) auto
    then show ?thesis by (simp add: m1_def get_size_set_size hdr_free del: of_nat_add)
  qed
  have h2: "get_prev_size m2 (of_nat x) = of_nat pv"
  proof -
    have "get_prev_size m2 (of_nat x) = get_prev_size m (of_nat x)"
      using bnd s18 by (intro get_prev_size_agree ag) auto
    with pv show ?thesis by simp
  qed
  have h3: "chain m2 (x + ?t) ?t post"
  proof (cases post)
    case Nil
    then show ?thesis by simp
  next
    case (Cons b post2)
    obtain s3 u3 where b: "b = (s3, u3)" by (cases b)
    from chp Cons b have p2: "get_size m (of_nat (x + ?t)) = of_nat s3 OR used_flag u3"
      "0 < s3" "8 dvd s3" "chain m (x + ?t + s3) s3 post2" by (auto simp: add.assoc)
    then have s38: "8 \<le> s3" by (auto intro: pos8)
    have bnd2: "x + ?t + s3 + total_size post2 + 16 \<le> 2 ^ 32" using bnd Cons b by simp
    have m2': "m2 = set_prev_size m1 (of_nat (x + ?t)) (of_nat ?t)"
      using Cons by (simp only: m2 list.distinct if_True not_False_eq_True)
    have "get_size m2 (of_nat (x + ?t)) = get_size m (of_nat (x + ?t))"
      using bnd2 s18 by (intro get_size_agree ag) auto
    with p2 have q1: "get_size m2 (of_nat (x + ?t)) = of_nat s3 OR used_flag u3" by simp
    have q2: "get_prev_size m2 (of_nat (x + ?t)) = of_nat ?t"
      unfolding m2' by (rule get_prev_size_set_prev_size)
    have "agree (x + ?t + s3) (x + ?t + s3 + total_size post2) m m2"
      using bnd2 s38 by (intro ag) auto
    with p2(4) have q3: "chain m2 (x + ?t + s3) s3 post2" by (rule chain_agree)
    from q1 q2 q3 p2 Cons b show ?thesis by (simp del: of_nat_add)
  qed
  show "chain (join_blocks s m x ?t) x pv ((?t, False) # post)"
    using h1 h2 h3 s1 s2 by (simp add: m2_def [symmetric] del: of_nat_add)
  show "agree 0 x m (join_blocks s m x ?t)"
    unfolding m2_def [symmetric] using bnd by (intro ag) auto
  show "agree (x + s1 + s2 + 8) (2 ^ 32) m (join_blocks s m x ?t)"
    unfolding m2_def [symmetric] using bnd by (intro ag) auto
qed

lemma coalesce_next_eq:
  assumes ch: "chain m b pv ((sz, False) # post)"
    and e: "b + sz + total_size post = unat (heap_end s)"
    and top: "unat (heap_end s) + 16 \<le> 2 ^ 32"
  shows "coalesce_next s m (of_nat b) (of_nat sz) =
           (case post of
              [] \<Rightarrow> (m, of_nat sz)
            | (sz2, u2) # post2 \<Rightarrow>
                if u2 then (m, of_nat sz)
                else (join_blocks s m b (sz + sz2), of_nat (sz + sz2)))"
proof -
  from ch have sz: "0 < sz" "8 dvd sz" and raw: "get_size m (of_nat b) = of_nat sz"
    and chp: "chain m (b + sz) sz post" by (auto simp: hdr_free)
  have bnd: "b + sz + total_size post + 16 \<le> 2 ^ 32" using e top by simp
  have lt: "((of_nat (b + sz) :: u32) < heap_end s) = (post \<noteq> [])"
  proof -
    have "((of_nat (b + sz) :: u32) < heap_end s) = (b + sz < unat (heap_end s))"
      using bnd by (intro w32_less_unat) simp
    also have "\<dots> = (post \<noteq> [])" using e chain_total_pos [OF chp] by (cases post) auto
    finally show ?thesis .
  qed
  show ?thesis
  proof (cases post)
    case Nil
    with lt show ?thesis by (simp add: coalesce_next_def)
  next
    case (Cons x post2)
    obtain sz2 u2 where x: "x = (sz2, u2)" by (cases x)
    from chp Cons x have n: "get_size m (of_nat (b + sz)) = of_nat sz2 OR used_flag u2"
      "0 < sz2" "8 dvd sz2" by auto
    have usedz: "(get_size m (of_nat (b + sz)) AND BLOCK_USED = 0) = (\<not> u2)"
      using n by (simp add: hdr_used)
    have msk: "get_size m (of_nat (b + sz)) AND BLOCK_SIZE_MASK = of_nat sz2"
      using n by (simp add: hdr_mask)
    from lt Cons have lt': "(of_nat (b + sz) :: u32) < heap_end s" by simp
    show ?thesis
      using lt' usedz msk raw unfolding Cons x
      by (simp add: coalesce_next_def join_blocks_def Let_def add.assoc)
  qed
qed

lemma coalesce_prev_eq:
  assumes ch: "chain m st 0 (pre @ (sz, u) # post)"
    and st: "st = unat (heap_start s)"
    and e: "st + total_size pre + sz + total_size post = unat (heap_end s)"
    and top: "unat (heap_end s) + 16 \<le> 2 ^ 32"
  shows "coalesce_prev s m (of_nat (st + total_size pre)) (of_nat sz) =
           (if pre \<noteq> [] \<and> \<not> snd (last pre)
            then join_blocks s m (st + total_size (butlast pre)) (fst (last pre) + sz)
            else m)"
proof (cases pre rule: rev_cases)
  case Nil
  with ch have "get_prev_size m (of_nat st) = 0" by simp
  with Nil show ?thesis by (simp add: coalesce_prev_def)
next
  case (snoc pre1 x)
  obtain psz pu where x: "x = (psz, pu)" by (cases x)
  let ?p = "st + total_size pre1"
  from ch snoc x have ch2: "chain m ?p (last_size 0 pre1) ((psz, pu) # (sz, u) # post)"
    by (simp add: chain_append)
  then have ps: "0 < psz" "8 dvd psz" and s2: "0 < sz" "8 dvd sz"
    and raw: "get_size m (of_nat ?p) = of_nat psz OR used_flag pu"
    and bl: "get_prev_size m (of_nat (?p + psz)) = of_nat psz" by auto
  have bnd: "?p + psz + sz + total_size post + 16 \<le> 2 ^ 32" using e top snoc x by simp
  have nz: "(of_nat psz :: u32) \<noteq> 0"
    using ps bnd w32_of_nat_inj [of psz 0] by simp
  have prev: "(of_nat (?p + psz) :: u32) - of_nat psz = of_nat ?p" by simp
  have ge: "heap_start s \<le> (of_nat ?p :: u32)"
    using bnd st by (subst w32_le_unat) auto
  have usedz: "(get_size m (of_nat ?p) AND BLOCK_USED = 0) = (\<not> pu)"
    using raw ps by (simp add: hdr_used)
  have msk: "get_size m (of_nat ?p) AND BLOCK_SIZE_MASK = of_nat psz"
    using raw ps by (simp add: hdr_mask)
  have msk2: "(of_nat psz + of_nat sz :: u32) AND BLOCK_SIZE_MASK = of_nat psz + of_nat sz"
    using hdr_mask_plain [of "psz + sz"] ps s2 by simp
  have b: "st + total_size pre = ?p + psz" using snoc x by simp
  show ?thesis
    unfolding b using nz prev ge usedz msk msk2 bl snoc x
    by (simp add: coalesce_prev_def join_blocks_def Let_def get_size_set_size add.assoc)
qed

lemma chain_replace_suffix:
  assumes "chain m st pv (pre @ xs)"
    and "chain m1 (st + total_size pre) (last_size pv pre) ys"
    and "agree 0 (st + total_size pre) m m1"
  shows "chain m1 st pv (pre @ ys)"
proof -
  from assms(1) have "chain m st pv pre" by (simp add: chain_append)
  moreover from assms(3) have "agree st (st + total_size pre) m m1" by (auto elim!: agree_mono)
  ultimately have "chain m1 st pv pre" by (rule chain_agree)
  with assms(2) show ?thesis by (simp add: chain_append)
qed

lemma clear_flag_chain:
  assumes ch: "chain m b pv ((sz, u) # post)"
    and bnd: "b + sz + total_size post + 16 \<le> 2 ^ 32"
  shows "chain (set_size m (of_nat b) (get_size m (of_nat b) AND NOT BLOCK_USED)) b pv
           ((sz, False) # post)"
    and "agree 0 b m (set_size m (of_nat b) (get_size m (of_nat b) AND NOT BLOCK_USED))"
    and "agree (b + 4) (2 ^ 32) m (set_size m (of_nat b) (get_size m (of_nat b) AND NOT BLOCK_USED))"
proof -
  let ?m1 = "set_size m (of_nat b) (get_size m (of_nat b) AND NOT BLOCK_USED)"
  from ch have sz: "0 < sz" "8 dvd sz" and raw: "get_size m (of_nat b) = of_nat sz OR used_flag u"
    and chp: "chain m (b + sz) sz post" by auto
  from sz have sz8: "8 \<le> sz" by (auto intro: pos8)
  have v: "get_size m (of_nat b) AND NOT BLOCK_USED = of_nat sz" using raw sz by (simp add: hdr_clear)
  have b4: "b + 4 \<le> 2 ^ 32" using bnd by simp
  show lo: "agree 0 b m ?m1" by (rule agree_set_size) (use b4 in simp_all)
  show hi: "agree (b + 4) (2 ^ 32) m ?m1" by (rule agree_set_size) (use b4 in simp_all)
  have "get_prev_size ?m1 (of_nat b) = get_prev_size m (of_nat b)"
    using hi bnd by (intro get_prev_size_agree) (auto elim!: agree_mono)
  moreover have "chain ?m1 (b + sz) sz post"
  proof (rule chain_agree [OF chp])
    show "agree (b + sz) (b + sz + total_size post) m ?m1"
      using hi bnd sz8 by (auto elim!: agree_mono)
  qed
  ultimately show "chain ?m1 b pv ((sz, False) # post)"
    using ch sz by (simp add: get_size_set_size hdr_clear hdr_free del: of_nat_add)
qed

lemma coalesce_next_chain:
  assumes ch: "chain m b pv ((sz, False) # post)"
    and e: "b + sz + total_size post = unat (heap_end s)"
    and top: "unat (heap_end s) + 16 \<le> 2 ^ 32"
  shows "chain (fst (coalesce_next s m (of_nat b) (of_nat sz))) b pv (merge_next sz post)"
    and "snd (coalesce_next s m (of_nat b) (of_nat sz)) = of_nat (fst (hd (merge_next sz post)))"
    and "agree 0 b m (fst (coalesce_next s m (of_nat b) (of_nat sz)))"
    and "agree (b + fst (hd (merge_next sz post)) + 8) (2 ^ 32) m
           (fst (coalesce_next s m (of_nat b) (of_nat sz)))"
proof -
  note eq = coalesce_next_eq [OF ch e top]
  show "chain (fst (coalesce_next s m (of_nat b) (of_nat sz))) b pv (merge_next sz post)"
  proof (cases post)
    case Nil
    with ch show ?thesis by (simp add: eq merge_next_def)
  next
    case (Cons x post2)
    obtain sz2 u2 where x: "x = (sz2, u2)" by (cases x)
    show ?thesis
    proof (cases u2)
      case True
      with ch Cons x show ?thesis by (simp add: eq merge_next_def del: of_nat_add)
    next
      case False
      from ch Cons x False have "chain m b pv ((sz, False) # (sz2, False) # post2)" by simp
      moreover from e Cons x have "b + sz + sz2 + total_size post2 = unat (heap_end s)" by simp
      ultimately have "chain (join_blocks s m b (sz + sz2)) b pv ((sz + sz2, False) # post2)"
        using top by (rule join_blocks_chain(1))
      with Cons x False show ?thesis by (simp add: eq merge_next_def del: of_nat_add)
    qed
  qed
  show "snd (coalesce_next s m (of_nat b) (of_nat sz)) = of_nat (fst (hd (merge_next sz post)))"
    by (auto simp: eq merge_next_def split: list.split bool.split)
  show "agree 0 b m (fst (coalesce_next s m (of_nat b) (of_nat sz)))"
  proof (cases post)
    case Nil
    then show ?thesis by (simp add: eq agree_refl)
  next
    case (Cons x post2)
    obtain sz2 u2 where x: "x = (sz2, u2)" by (cases x)
    show ?thesis
    proof (cases u2)
      case True
      with Cons x show ?thesis by (simp add: eq agree_refl)
    next
      case False
      from ch Cons x False have "chain m b pv ((sz, False) # (sz2, False) # post2)" by simp
      moreover from e Cons x have "b + sz + sz2 + total_size post2 = unat (heap_end s)" by simp
      ultimately have "agree 0 b m (join_blocks s m b (sz + sz2))"
        using top by (rule join_blocks_chain(2))
      with Cons x False show ?thesis by (simp add: eq)
    qed
  qed
  show "agree (b + fst (hd (merge_next sz post)) + 8) (2 ^ 32) m
           (fst (coalesce_next s m (of_nat b) (of_nat sz)))"
  proof (cases post)
    case Nil
    then show ?thesis by (simp add: eq agree_refl)
  next
    case (Cons x post2)
    obtain sz2 u2 where x: "x = (sz2, u2)" by (cases x)
    show ?thesis
    proof (cases u2)
      case True
      with Cons x show ?thesis by (simp add: eq agree_refl)
    next
      case False
      from ch Cons x False have "chain m b pv ((sz, False) # (sz2, False) # post2)" by simp
      moreover from e Cons x have "b + sz + sz2 + total_size post2 = unat (heap_end s)" by simp
      ultimately have "agree (b + sz + sz2 + 8) (2 ^ 32) m (join_blocks s m b (sz + sz2))"
        using top by (rule join_blocks_chain(3))
      with Cons x False show ?thesis by (simp add: eq merge_next_def add.assoc)
    qed
  qed
qed

lemma coalesce_prev_chain:
  assumes ch: "chain m st 0 (pre @ (sz, False) # post)"
    and st: "st = unat (heap_start s)"
    and e: "st + total_size pre + sz + total_size post = unat (heap_end s)"
    and top: "unat (heap_end s) + 16 \<le> 2 ^ 32"
  shows "chain (coalesce_prev s m (of_nat (st + total_size pre)) (of_nat sz)) st 0
           (merge_prev pre ((sz, False) # post))"
    and "agree 0 (st + total_size (if pre \<noteq> [] \<and> \<not> snd (last pre) then butlast pre else pre))
           m (coalesce_prev s m (of_nat (st + total_size pre)) (of_nat sz))"
    and "agree (st + total_size pre + sz + 8) (2 ^ 32)
           m (coalesce_prev s m (of_nat (st + total_size pre)) (of_nat sz))"
proof -
  note eq = coalesce_prev_eq [OF ch st e top]
  let ?m1 = "coalesce_prev s m (of_nat (st + total_size pre)) (of_nat sz)"
  have "chain ?m1 st 0 (merge_prev pre ((sz, False) # post))
      \<and> agree 0 (st + total_size (if pre \<noteq> [] \<and> \<not> snd (last pre) then butlast pre else pre)) m ?m1
      \<and> agree (st + total_size pre + sz + 8) (2 ^ 32) m ?m1"
  proof (cases "pre \<noteq> [] \<and> \<not> snd (last pre)")
    case False
    then have "?m1 = m" by (simp only: eq if_False)
    with False ch show ?thesis by (auto simp: merge_prev_def agree_refl)
  next
    case True
    then obtain pre1 psz where pre: "pre = pre1 @ [(psz, False)]"
      by (cases pre rule: rev_cases) auto
    let ?p = "st + total_size pre1"
    from ch pre have ch2: "chain m ?p (last_size 0 pre1) ((psz, False) # (sz, False) # post)"
      by (simp add: chain_append)
    from e pre have e2: "?p + psz + sz + total_size post = unat (heap_end s)" by simp
    note jb = join_blocks_chain [OF ch2 e2 top]
    from True have "?m1 = join_blocks s m (st + total_size (butlast pre)) (fst (last pre) + sz)"
      by (simp only: eq if_True simp_thms)
    also have "\<dots> = join_blocks s m ?p (psz + sz)" by (simp add: pre)
    finally have m1: "?m1 = join_blocks s m ?p (psz + sz)" .
    have c: "chain (join_blocks s m ?p (psz + sz)) st 0 (pre1 @ (psz + sz, False) # post)"
    proof (rule chain_replace_suffix)
      show "chain m st 0 (pre1 @ (psz, False) # (sz, False) # post)" using ch pre by simp
      show "chain (join_blocks s m ?p (psz + sz)) ?p (last_size 0 pre1) ((psz + sz, False) # post)"
        by (rule jb(1))
      show "agree 0 ?p m (join_blocks s m ?p (psz + sz))" by (rule jb(2))
    qed
    have mp: "merge_prev pre ((sz, False) # post) = pre1 @ (psz + sz, False) # post"
      using pre by (simp add: merge_prev_def)
    have a1: "st + total_size pre + sz + 8 = ?p + psz + sz + 8" using pre by simp
    have a2: "(if pre \<noteq> [] \<and> \<not> snd (last pre) then butlast pre else pre) = pre1"
      using pre by simp
    show ?thesis unfolding m1 mp a1 a2 using c jb(2,3) by blast
  qed
  then show "chain ?m1 st 0 (merge_prev pre ((sz, False) # post))"
    and "agree 0 (st + total_size (if pre \<noteq> [] \<and> \<not> snd (last pre) then butlast pre else pre)) m ?m1"
    and "agree (st + total_size pre + sz + 8) (2 ^ 32) m ?m1"
    by simp_all
qed

lemma merge_next_shape:
  "\<exists>t post1. merge_next sz post = (t, False) # post1 \<and> t + total_size post1 = sz + total_size post
     \<and> sz \<le> t"
  by (auto simp: merge_next_def split: list.split bool.split)

lemma total_size_merge_prev:
  "total_size (merge_prev pre ((t, False) # post1)) = total_size pre + t + total_size post1"
proof (cases pre rule: rev_cases)
  case Nil
  then show ?thesis by (simp add: merge_prev_def)
next
  case (snoc pre1 x)
  then show ?thesis by (cases x) (simp add: merge_prev_def)
qed

lemma total_size_free_layout [simp]:
  "total_size (free_layout pre sz post) = total_size pre + sz + total_size post"
proof -
  obtain t post1 where "merge_next sz post = (t, False) # post1"
    "t + total_size post1 = sz + total_size post"
    using merge_next_shape by blast
  then show ?thesis by (simp add: free_layout_def total_size_merge_prev)
qed

lemma heap_start_of_nat: "heap_start s = of_nat (unat (heap_start s))"
  by simp

lemma free_state:
  assumes inv: "heap_inv s (pre @ (sz, True) # post)"
  shows "free s (block_ptr s pre) =
           s\<lparr>mem :=
               (let b = unat (heap_start s) + total_size pre;
                    m1 = set_size (mem s) (of_nat b) (get_size (mem s) (of_nat b) AND NOT BLOCK_USED);
                    r = coalesce_next s m1 (of_nat b) (of_nat sz)
                in coalesce_prev s (fst r) (of_nat b) (snd r))\<rparr>"
proof -
  let ?st = "unat (heap_start s)"
  let ?b = "?st + total_size pre"
  from inv have st: "heap_start s \<noteq> NULL" and e: "?b + sz + total_size post = unat (heap_end s)"
    and top: "unat (heap_end s) + 16 \<le> 2 ^ 32"
    and ch: "chain (mem s) ?st 0 (pre @ (sz, True) # post)"
    by (auto simp: heap_inv_def)
  from ch have chb: "chain (mem s) ?b (last_size 0 pre) ((sz, True) # post)"
    by (simp add: chain_append)
  then have sz: "0 < sz" "8 dvd sz" and raw: "get_size (mem s) (of_nat ?b) = of_nat sz OR used_flag True"
    by auto
  have bnd: "?b + sz + total_size post + 16 \<le> 2 ^ 32" using e top by simp
  have ptr: "block_ptr s pre = of_nat (?b + 8)"
    by (simp add: block_ptr_def HEADER_SIZE_def)
  have nn: "(of_nat (?b + 8) :: u32) \<noteq> NULL"
    unfolding NULL_def using w32_of_nat_inj [of "?b + 8" 0] bnd by simp
  have blk: "(of_nat (?b + 8) :: u32) - HEADER_SIZE = of_nat ?b"
    by (simp add: HEADER_SIZE_def)
  have ge: "\<not> (of_nat ?b :: u32) < heap_start s"
    using bnd by (subst w32_less_unat) auto
  have lt: "\<not> heap_end s \<le> (of_nat ?b :: u32)"
    using bnd e sz by (subst w32_le_unat) auto
  have msk: "get_size (set_size (mem s) (of_nat ?b) (get_size (mem s) (of_nat ?b) AND NOT BLOCK_USED))
               (of_nat ?b) AND BLOCK_SIZE_MASK = of_nat sz"
    using raw sz by (simp add: get_size_set_size hdr_clear hdr_mask_plain)
  show ?thesis
    unfolding ptr free_def Let_def blk
    using nn st ge lt msk
    by (simp only: if_False simp_thms split_beta) 
qed

lemma total_size_butlast_le: "total_size (butlast xs) \<le> total_size xs"
  by (cases xs rule: rev_cases) auto

lemma free_heap_inv:
  assumes inv: "heap_inv s (pre @ (sz, True) # post)"
  shows "heap_inv (free s (block_ptr s pre)) (free_layout pre sz post)"
    and "agree 0 (unat (heap_start s)
           + total_size (if pre \<noteq> [] \<and> \<not> snd (last pre) then butlast pre else pre))
           (mem s) (mem (free s (block_ptr s pre)))"
    and "agree (unat (heap_start s) + total_size pre + fst (hd (merge_next sz post)) + 8) (2 ^ 32)
           (mem s) (mem (free s (block_ptr s pre)))"
    and "heap_start (free s (block_ptr s pre)) = heap_start s"
    and "heap_end (free s (block_ptr s pre)) = heap_end s"
proof -
  let ?st = "unat (heap_start s)"
  let ?b = "?st + total_size pre"
  let ?q = "?st + total_size (if pre \<noteq> [] \<and> \<not> snd (last pre) then butlast pre else pre)"
  define m1 where "m1 = set_size (mem s) (of_nat ?b) (get_size (mem s) (of_nat ?b) AND NOT BLOCK_USED)"
  define r where "r = coalesce_next s m1 (of_nat ?b) (of_nat sz)"
  define m3 where "m3 = coalesce_prev s (fst r) (of_nat ?b) (snd r)"
  have fs: "free s (block_ptr s pre) = s\<lparr>mem := m3\<rparr>"
    unfolding free_state [OF inv] m3_def r_def m1_def Let_def ..
  from inv have st: "heap_start s \<noteq> NULL" "8 dvd ?st"
    and e: "?b + sz + total_size post = unat (heap_end s)"
    and top: "unat (heap_end s) + 16 \<le> 2 ^ 32"
    and ch: "chain (mem s) ?st 0 (pre @ (sz, True) # post)"
    by (auto simp: heap_inv_def)
  from ch have chb: "chain (mem s) ?b (last_size 0 pre) ((sz, True) # post)"
    by (simp add: chain_append)
  have bnd: "?b + sz + total_size post + 16 \<le> 2 ^ 32" using e top by simp
  note cf = clear_flag_chain [OF chb bnd, folded m1_def]
  have ch1: "chain m1 ?st 0 (pre @ (sz, False) # post)"
    using ch cf(1) cf(2) by (rule chain_replace_suffix)
  note cn = coalesce_next_chain [OF cf(1) e top, folded r_def]
  obtain t post1 where mn: "merge_next sz post = (t, False) # post1"
    and tt: "t + total_size post1 = sz + total_size post" and szt: "sz \<le> t"
    using merge_next_shape by blast
  have ch2: "chain (fst r) ?st 0 (pre @ (t, False) # post1)"
    using ch1 cn(1) cn(3) unfolding mn by (rule chain_replace_suffix)
  have sr: "snd r = of_nat t" using cn(2) by (simp add: mn)
  have e2: "?st + total_size pre + t + total_size post1 = unat (heap_end s)" using e tt by simp
  note cp = coalesce_prev_chain [OF ch2 refl e2 top, folded sr, folded m3_def]
  have fl: "free_layout pre sz post = merge_prev pre ((t, False) # post1)"
    by (simp add: free_layout_def mn)
  show "heap_inv (free s (block_ptr s pre)) (free_layout pre sz post)"
    using st e top cp(1) by (simp add: heap_inv_def fs fl [symmetric] add.assoc)
  have qb: "?q \<le> ?b" using total_size_butlast_le [of pre] by simp
  have "agree 0 ?q (mem s) m1" using cf(2) qb by (auto elim!: agree_mono)
  moreover have "agree 0 ?q m1 (fst r)" using cn(3) qb by (auto elim!: agree_mono)
  ultimately have "agree 0 ?q (mem s) m3" using cp(2) by (blast intro: agree_trans)
  then show "agree 0 ?q (mem s) (mem (free s (block_ptr s pre)))" by (simp add: fs)
  have "agree (?b + t + 8) (2 ^ 32) (mem s) m1" using cf(3) by (auto elim!: agree_mono)
  moreover have "agree (?b + t + 8) (2 ^ 32) m1 (fst r)" using cn(4) by (simp add: mn)
  ultimately have "agree (?b + t + 8) (2 ^ 32) (mem s) m3" using cp(3) by (blast intro: agree_trans)
  then show "agree (?b + fst (hd (merge_next sz post)) + 8) (2 ^ 32)
           (mem s) (mem (free s (block_ptr s pre)))" by (simp add: fs mn)
  show "heap_start (free s (block_ptr s pre)) = heap_start s" by (simp add: fs)
  show "heap_end (free s (block_ptr s pre)) = heap_end s" by (simp add: fs)
qed

lemma unat_lt32: "unat (w :: u32) < 2 ^ 32"
  using unsigned_less [of w] by simp

lemma align_size_dvd: "8 dvd unat (align_size n)"
  using and_not7_dvd by (simp add: align_size_def Let_def ALIGNMENT_def)

lemma total_size_taken [simp]: "nd \<le> sz \<Longrightarrow> total_size (taken nd sz) = sz"
  by (simp add: taken_def)

lemma malloc_none_fit:
  assumes inv: "heap_inv s bs" and un: "\<forall>b\<in>set bs. unfit (unat (align_size n)) b"
  shows "malloc s n = Some (s, NULL)"
proof (cases "n = 0")
  case True
  then show ?thesis by (simp add: malloc_def)
next
  case False
  let ?nd = "unat (align_size n)"
  from inv have st: "heap_start s \<noteq> NULL"
    and e: "unat (heap_start s) + total_size bs = unat (heap_end s)"
    and ch: "chain (mem s) (unat (heap_start s)) 0 bs" by (auto simp: heap_inv_def)
  have dw: "dropWhile (unfit ?nd) bs = []" using un by simp
  have "malloc_loop s (of_nat ?nd) (of_nat (unat (heap_start s))) = Some (s, NULL)"
    by (subst malloc_loop_scan [OF ch e unat_lt32]) (simp add: dw)
  with False st show ?thesis by (simp add: malloc_def)
qed

lemma malloc_fit:
  assumes inv: "heap_inv s (pre @ (sz, False) # post)"
    and un: "\<forall>b\<in>set pre. unfit (unat (align_size n)) b"
    and fit: "unat (align_size n) \<le> sz"
    and n: "n \<noteq> 0" "align_size n \<noteq> 0"
  shows "\<exists>s1. malloc s n = Some (s1, block_ptr s pre)
           \<and> heap_inv s1 (pre @ taken (unat (align_size n)) sz @ post)
           \<and> agree 0 (unat (heap_start s) + total_size pre) (mem s) (mem s1)
           \<and> agree (unat (heap_start s) + total_size pre + sz + 8) (2 ^ 32) (mem s) (mem s1)
           \<and> heap_start s1 = heap_start s \<and> heap_end s1 = heap_end s"
proof -
  let ?nd = "unat (align_size n)"
  let ?st = "unat (heap_start s)"
  let ?b = "?st + total_size pre"
  let ?s1 = "take_block s (of_nat ?nd) (of_nat ?b) (of_nat sz)"
  from inv have st: "heap_start s \<noteq> NULL" "8 dvd ?st"
    and e: "?b + sz + total_size post = unat (heap_end s)"
    and top: "unat (heap_end s) + 16 \<le> 2 ^ 32"
    and ch: "chain (mem s) ?st 0 (pre @ (sz, False) # post)"
    by (auto simp: heap_inv_def)
  from st have stpos: "0 < ?st" by (simp add: NULL_def unat_gt_0)
  from ch have chb: "chain (mem s) ?b (last_size 0 pre) ((sz, False) # post)"
    by (simp add: chain_append)
  have nd: "8 dvd ?nd" "0 < ?nd" using n align_size_dvd by (auto simp: unat_gt_0)
  have e': "?st + total_size (pre @ (sz, False) # post) = unat (heap_end s)" using e by simp
  have nf: "\<not> unfit ?nd (sz, False)" using fit by (simp add: unfit_def)
  have dw: "dropWhile (unfit ?nd) (pre @ (sz, False) # post) = (sz, False) # post"
    using un nf by (simp add: dropWhile_append2)
  have tw: "takeWhile (unfit ?nd) (pre @ (sz, False) # post) = pre"
    using un nf by (simp add: takeWhile_append2)
  have "malloc_loop s (of_nat ?nd) (of_nat ?st) = Some (?s1, of_nat ?b + HEADER_SIZE)"
    by (subst malloc_loop_scan [OF ch e' unat_lt32]) (simp add: dw tw del: of_nat_add)
  then have m: "malloc s n = Some (?s1, block_ptr s pre)"
    using n st by (simp add: malloc_def block_ptr_def)
  have bpos: "0 < ?b" using stpos by simp
  note tb = take_block_taken [OF chb e top nd fit bpos]
  have "chain (mem ?s1) ?st 0 (pre @ taken ?nd sz @ post)"
    using ch tb(1) tb(2) by (rule chain_replace_suffix)
  then have "heap_inv ?s1 (pre @ taken ?nd sz @ post)"
    using st e top fit by (simp add: heap_inv_def add.assoc)
  with m tb(2,3) show ?thesis by auto
qed

lemma alloc_layout_none: "\<forall>b\<in>set bs. unfit nd b \<Longrightarrow> alloc_layout nd bs = bs"
  by (induction bs) auto

lemma alloc_layout_fit:
  "\<forall>b\<in>set pre. unfit nd b \<Longrightarrow> \<not> unfit nd (sz, u)
     \<Longrightarrow> alloc_layout nd (pre @ (sz, u) # post) = pre @ taken nd sz @ post"
  by (induction pre) auto

lemma first_fit_split:
  "(\<forall>b\<in>set bs. unfit nd b)
   \<or> (\<exists>pre sz post. bs = pre @ (sz, False) # post \<and> (\<forall>b\<in>set pre. unfit nd b) \<and> nd \<le> sz)"
proof (induction bs)
  case Nil
  then show ?case by simp
next
  case (Cons b bs)
  show ?case
  proof (cases "unfit nd b")
    case False
    then have "b # bs = [] @ (fst b, False) # bs \<and> nd \<le> fst b"
      by (cases b) (auto simp: unfit_def)
    then show ?thesis by (metis empty_iff list.set(1))
  next
    case True
    from Cons.IH show ?thesis
    proof
      assume "\<forall>b\<in>set bs. unfit nd b"
      with True show ?thesis by simp
    next
      assume "\<exists>pre sz post. bs = pre @ (sz, False) # post \<and> (\<forall>b\<in>set pre. unfit nd b) \<and> nd \<le> sz"
      then obtain pre sz post where "bs = pre @ (sz, False) # post" "\<forall>b\<in>set pre. unfit nd b" "nd \<le> sz"
        by blast
      with True have "b # bs = (b # pre) @ (sz, False) # post \<and> (\<forall>x\<in>set (b # pre). unfit nd x) \<and> nd \<le> sz"
        by simp
      then show ?thesis by blast
    qed
  qed
qed

lemma malloc_heap_inv:
  assumes inv: "heap_inv s bs" and n: "align_size n \<noteq> 0"
  shows "\<exists>s1 p bs1. malloc s n = Some (s1, p) \<and> heap_inv s1 bs1
           \<and> (bs1 = bs \<or> bs1 = alloc_layout (unat (align_size n)) bs)
           \<and> heap_start s1 = heap_start s \<and> heap_end s1 = heap_end s"
proof (cases "n = 0")
  case True
  with inv show ?thesis by (auto simp: malloc_def)
next
  case False
  let ?nd = "unat (align_size n)"
  from first_fit_split [of bs ?nd] show ?thesis
  proof
    assume "\<forall>b\<in>set bs. unfit ?nd b"
    then show ?thesis using inv malloc_none_fit by blast
  next
    assume "\<exists>pre sz post. bs = pre @ (sz, False) # post \<and> (\<forall>b\<in>set pre. unfit ?nd b) \<and> ?nd \<le> sz"
    then obtain pre sz post where bs: "bs = pre @ (sz, False) # post"
      and un: "\<forall>b\<in>set pre. unfit ?nd b" and fit: "?nd \<le> sz" by blast
    from fit have nf: "\<not> unfit ?nd (sz, False)" by (simp add: unfit_def)
    from malloc_fit [OF inv [unfolded bs] un fit False n]
    obtain s1 where "malloc s n = Some (s1, block_ptr s pre)"
      "heap_inv s1 (pre @ taken ?nd sz @ post)" "heap_start s1 = heap_start s"
      "heap_end s1 = heap_end s" by blast
    then show ?thesis using alloc_layout_fit [OF un nf, of post] bs by auto
  qed
qed

lemma walk_chain:
  assumes "chain m a pv bs" "a + total_size bs = e" "e < 2 ^ 32"
  shows "walk m e a = Some bs"
  using assms
proof (induction bs arbitrary: a pv)
  case Nil
  then show ?case by (subst walk.simps) simp
next
  case (Cons b bs)
  obtain sz u where b: "b = (sz, u)" by (cases b)
  from Cons.prems b have hd: "get_size m (of_nat a) = of_nat sz OR used_flag u"
    "0 < sz" "8 dvd sz" and ch: "chain m (a + sz) sz bs"
    and e: "a + sz + total_size bs = e" by (auto simp: add.assoc)
  have msk: "unat (get_size m (of_nat a) AND BLOCK_SIZE_MASK) = sz"
    using hd e Cons.prems(3) by (simp add: hdr_mask w32_unat_of_nat)
  have usedz: "(get_size m (of_nat a) AND BLOCK_USED \<noteq> 0) = u"
    using hd hdr_used [of sz u] by simp
  have rec: "walk m e (a + sz) = Some bs" using Cons.IH [OF ch e Cons.prems(3)] .
  have "\<not> e \<le> a" using e hd(2) by simp
  then show ?case unfolding b
    by (subst walk.simps) (simp add: msk usedz rec hd(2))
qed

lemma heap_inv_layout: "heap_inv s bs \<Longrightarrow> arena_layout s = Some bs"
  unfolding heap_inv_def arena_layout_def
  by (auto intro!: walk_chain simp: unat_lt32)

lemma heap_inv_unique:
  assumes "heap_inv s bs" "heap_inv s bs1"
  shows "bs1 = bs"
proof -
  from assms have "arena_layout s = Some bs" "arena_layout s = Some bs1"
    by (auto dest: heap_inv_layout)
  then show ?thesis by simp
qed

lemma visits_outside: "x < a \<or> a + total_size bs \<le> x \<Longrightarrow> visits a bs x = 0"
  by (induction bs arbitrary: a) auto

lemma visits_once:
  "chain m a pv bs \<Longrightarrow> a \<le> x \<Longrightarrow> x < a + total_size bs \<Longrightarrow> visits a bs x = 1"
proof (induction bs arbitrary: a pv)
  case Nil
  then show ?case by simp
next
  case (Cons b bs)
  obtain sz u where b: "b = (sz, u)" by (cases b)
  with Cons.prems have ch: "chain m (a + sz) sz bs" by simp
  show ?case
  proof (cases "x < a + sz")
    case True
    with Cons.prems(2) b show ?thesis by (simp add: visits_outside)
  next
    case False
    with Cons.prems b Cons.IH [OF ch, of ] show ?thesis by (simp add: add.assoc)
  qed
qed

lemma backlinks_chain:
  "chain m a pv bs \<Longrightarrow> pv < 2 ^ 32 \<Longrightarrow> a + total_size bs < 2 ^ 32
     \<Longrightarrow> backlinks m a bs = (if bs = [] then [] else pv # map fst (butlast bs))"
proof (induction bs arbitrary: a pv)
  case Nil
  then show ?case by simp
next
  case (Cons b bs)
  obtain sz u where b: "b = (sz, u)" by (cases b)
  with Cons.prems have ch: "chain m (a + sz) sz bs" and pv: "get_prev_size m (of_nat a) = of_nat pv"
    and sz: "sz < 2 ^ 32" "a + sz + total_size bs < 2 ^ 32" by auto
  from Cons.IH [OF ch sz] Cons.prems(2) pv b show ?case
    by (simp add: w32_unat_of_nat del: of_nat_add)
qed

lemma used_ptrs_split:
  "p \<in> set (used_ptrs a bs)
     \<Longrightarrow> \<exists>pre sz post. bs = pre @ (sz, True) # post \<and> p = a + of_nat (total_size pre) + HEADER_SIZE"
proof (induction bs arbitrary: a)
  case Nil
  then show ?case by simp
next
  case (Cons b bs)
  obtain sz u where b: "b = (sz, u)" by (cases b)
  show ?case
  proof (cases "u \<and> p = a + HEADER_SIZE")
    case True
    with b have "b # bs = [] @ (sz, True) # bs \<and> p = a + of_nat (total_size []) + HEADER_SIZE"
      by simp
    then show ?thesis by blast
  next
    case False
    with Cons.prems b have "p \<in> set (used_ptrs (a + of_nat sz) bs)" by (auto split: if_splits)
    from Cons.IH [OF this] obtain pre sz1 post where
      "bs = pre @ (sz1, True) # post" "p = a + of_nat sz + of_nat (total_size pre) + HEADER_SIZE"
      by blast
    with b have "b # bs = (b # pre) @ (sz1, True) # post
                 \<and> p = a + of_nat (total_size (b # pre)) + HEADER_SIZE"
      by (simp add: add.assoc)
    then show ?thesis by blast
  qed
qed

lemma used_ptrs_member:
  "a + of_nat (total_size pre) + HEADER_SIZE \<in> set (used_ptrs a (pre @ (sz, True) # post))"
proof (induction pre arbitrary: a)
  case Nil
  then show ?case by simp
next
  case (Cons b pre)
  obtain sz1 u1 where b: "b = (sz1, u1)" by (cases b)
  from Cons [of "a + of_nat sz1"] show ?case by (simp add: b add.assoc)
qed

lemma heap_init_inv:
  assumes ok: "heap_init_ok start sz"
  shows "heap_inv (heap_init s start sz)
           (if heap_end (heap_init s start sz) = heap_start (heap_init s start sz) then []
            else [(unat (heap_end (heap_init s start sz)) - unat (heap_start (heap_init s start sz)),
                   False)])"
proof -
  define al where "al = (start + ALIGNMENT - 1) AND NOT (ALIGNMENT - 1)"
  define s2 where "s2 = (sz - (al - start)) AND NOT (ALIGNMENT - 1)"
  let ?S = "heap_init s start sz"
  have a7: "ALIGNMENT - 1 = 7" by (simp add: ALIGNMENT_def)
  have hs: "heap_start ?S = al" and he: "heap_end ?S = al + s2"
    and m: "mem ?S = set_prev_size (set_size (mem s) al s2) al 0"
    by (simp_all add: heap_init_def Let_def al_def s2_def)
  from ok have nz: "start \<noteq> 0" and dle: "unat (al - start) \<le> unat sz"
    and fit: "unat start + unat sz + 16 \<le> 2 ^ 32"
    by (simp_all add: heap_init_ok_def al_def)
  have "unat (start + (al - start)) = unat start + unat (al - start)"
    using dle fit by (intro unat_add_lem [THEN iffD1]) simp
  then have al: "unat al = unat start + unat (al - start)" by simp
  have "0 < unat start" using nz by (simp add: unat_gt_0)
  with al have alpos: "0 < unat al" by simp
  then have alnz: "al \<noteq> NULL" by (simp add: NULL_def unat_gt_0)
  have s1: "unat (sz - (al - start)) = unat sz - unat (al - start)"
    using dle by (simp add: unat_sub word_le_nat_alt)
  have "s2 \<le> sz - (al - start)" unfolding s2_def by (rule word_and_le2)
  then have s2le: "unat s2 \<le> unat sz - unat (al - start)" using s1 by (simp add: word_le_nat_alt)
  have sum: "unat al + unat s2 + 16 \<le> 2 ^ 32" using al s2le dle fit by simp
  have e: "unat (al + s2) = unat al + unat s2"
    using sum by (intro unat_add_lem [THEN iffD1]) simp
  have al8: "8 dvd unat al" unfolding al_def a7 by (rule and_not7_dvd)
  have s28: "8 dvd unat s2" unfolding s2_def a7 by (rule and_not7_dvd)
  let ?a = "unat al"
  have m': "mem ?S = set_prev_size (set_size (mem s) (of_nat ?a) s2) (of_nat ?a) 0"
    by (simp add: m)
  have gs: "get_size (mem ?S) (of_nat ?a) = s2"
    unfolding m' using sum by (subst gs_sp_other) (simp_all add: get_size_set_size)
  have gp: "get_prev_size (mem ?S) (of_nat ?a) = 0"
    unfolding m' by (rule get_prev_size_set_prev_size)
  have eq0: "(al + s2 = al) = (s2 = 0)" by simp
  show ?thesis
  proof (cases "s2 = 0")
    case True
    then show ?thesis using alnz al8 sum
      by (simp add: heap_inv_def hs he)
  next
    case False
    then have pos: "0 < unat s2" by (simp add: unat_gt_0)
    have "chain (mem ?S) ?a 0 [(unat s2, False)]"
      using gs gp pos s28 by (simp add: hdr_free)
    then show ?thesis using False alnz al8 e sum
      by (simp add: heap_inv_def hs he)
  qed
qed

lemma naf_Cons:
  "no_adjacent_free (b # ys) \<longleftrightarrow> no_adjacent_free ys \<and> (ys = [] \<or> snd b \<or> snd (hd ys))"
  by (cases b; cases ys) auto

lemma naf_append:
  "no_adjacent_free (xs @ ys) \<longleftrightarrow>
     no_adjacent_free xs \<and> no_adjacent_free ys
     \<and> (xs = [] \<or> ys = [] \<or> snd (last xs) \<or> snd (hd ys))"
proof (induction xs)
  case Nil
  then show ?case by simp
next
  case (Cons x xs)
  then show ?case by (cases xs) (auto simp: naf_Cons)
qed

lemma naf_taken:
  assumes "no_adjacent_free (pre @ (sz, False) # post)"
  shows "no_adjacent_free (pre @ taken nd sz @ post)"
  using assms by (auto simp: naf_append naf_Cons taken_def)

lemma naf_free_layout:
  assumes "no_adjacent_free (pre @ (sz, True) # post)"
  shows "no_adjacent_free (free_layout pre sz post)"
proof -
  from assms have pre: "no_adjacent_free pre" and post: "no_adjacent_free post"
    by (auto simp: naf_append naf_Cons)
  have mn: "no_adjacent_free (merge_next sz post)"
    using post by (auto simp: merge_next_def naf_Cons split: list.split bool.split)
  obtain t post1 where sh: "merge_next sz post = (t, False) # post1"
    using merge_next_shape by blast
  show ?thesis
  proof (cases "pre \<noteq> [] \<and> \<not> snd (last pre)")
    case False
    then show ?thesis using pre mn by (auto simp: free_layout_def merge_prev_def naf_append sh)
  next
    case True
    then obtain pre1 psz where p: "pre = pre1 @ [(psz, False)]"
      by (cases pre rule: rev_cases) auto
    from pre p have "no_adjacent_free pre1" "pre1 = [] \<or> snd (last pre1)"
      by (auto simp: naf_append)
    moreover from mn sh have "no_adjacent_free post1" "post1 = [] \<or> snd (hd post1)"
      by (auto simp: naf_Cons)
    ultimately show ?thesis
      by (auto simp: free_layout_def merge_prev_def sh p naf_append naf_Cons)
  qed
qed

lemma free_layout_taken:
  assumes naf: "no_adjacent_free (pre @ (sz, False) # post)" and fit: "nd \<le> sz"
  shows "(nd + 16 \<le> sz \<longrightarrow> free_layout pre nd ((sz - nd, False) # post) = pre @ (sz, False) # post)
       \<and> (\<not> nd + 16 \<le> sz \<longrightarrow> free_layout pre sz post = pre @ (sz, False) # post)"
proof -
  from naf have a: "pre = [] \<or> snd (last pre)" and b: "post = [] \<or> snd (hd post)"
    by (auto simp: naf_append naf_Cons)
  from b have "merge_next sz post = (sz, False) # post"
    by (auto simp: merge_next_def split: list.split bool.split)
  moreover have "merge_next nd ((sz - nd, False) # post) = (sz, False) # post"
    using fit by (simp add: merge_next_def)
  moreover from a have "merge_prev pre ((sz, False) # post) = pre @ (sz, False) # post"
    by (auto simp: merge_prev_def)
  ultimately show ?thesis by (simp add: free_layout_def)
qed

lemma free_noop:
  "ptr = NULL \<or> ptr - HEADER_SIZE < heap_start s \<or> heap_end s \<le> ptr - HEADER_SIZE
     \<Longrightarrow> free s ptr = s"
  by (auto simp: free_def Let_def)

lemma releasable_cases:
  assumes inv: "heap_inv s bs" and rel: "releasable s p"
  shows "free s p = s
       \<or> (\<exists>pre sz post. bs = pre @ (sz, True) # post \<and> p = block_ptr s pre)"
proof (cases "p = NULL \<or> p - HEADER_SIZE < heap_start s \<or> heap_end s \<le> p - HEADER_SIZE")
  case True
  then show ?thesis by (simp add: free_noop)
next
  case False
  with rel have "p \<in> set (used_ptrs (heap_start s) bs)"
    by (auto simp: releasable_def heap_inv_layout [OF inv])
  from used_ptrs_split [OF this] show ?thesis by (auto simp: block_ptr_def)
qed

lemma free_keeps_inv:
  assumes inv: "heap_inv s bs" and rel: "releasable s p"
  shows "\<exists>bs1. heap_inv (free s p) bs1 \<and> heap_start (free s p) = heap_start s
           \<and> heap_end (free s p) = heap_end s
           \<and> (no_adjacent_free bs \<longrightarrow> no_adjacent_free bs1)"
  using releasable_cases [OF inv rel]
proof
  assume "free s p = s"
  with inv show ?thesis by auto
next
  assume "\<exists>pre sz post. bs = pre @ (sz, True) # post \<and> p = block_ptr s pre"
  then obtain pre sz post where bs: "bs = pre @ (sz, True) # post" and p: "p = block_ptr s pre"
    by blast
  from free_heap_inv(1,4,5) [OF inv [unfolded bs]] naf_free_layout [of pre sz post]
  show ?thesis unfolding p bs by blast
qed

lemma naf_alloc_layout: "no_adjacent_free bs \<Longrightarrow> no_adjacent_free (alloc_layout nd bs)"
proof -
  assume naf: "no_adjacent_free bs"
  from first_fit_split [of bs nd] show ?thesis
  proof
    assume "\<forall>b\<in>set bs. unfit nd b"
    with naf show ?thesis by (simp add: alloc_layout_none)
  next
    assume "\<exists>pre sz post. bs = pre @ (sz, False) # post \<and> (\<forall>b\<in>set pre. unfit nd b) \<and> nd \<le> sz"
    then obtain pre sz post where bs: "bs = pre @ (sz, False) # post"
      and un: "\<forall>b\<in>set pre. unfit nd b" and fit: "nd \<le> sz" by blast
    from fit have nf: "\<not> unfit nd (sz, False)" by (simp add: unfit_def)
    show ?thesis using naf naf_taken [of pre sz post nd]
      unfolding bs alloc_layout_fit [OF un nf] by simp
  qed
qed

lemma malloc_keeps_inv:
  assumes inv: "heap_inv s bs" and n: "align_size n \<noteq> 0"
  shows "\<exists>s1 p bs1. malloc s n = Some (s1, p) \<and> heap_inv s1 bs1
           \<and> heap_start s1 = heap_start s \<and> heap_end s1 = heap_end s
           \<and> (no_adjacent_free bs \<longrightarrow> no_adjacent_free bs1)"
proof -
  from malloc_heap_inv [OF inv n] obtain s1 p bs1 where
    "malloc s n = Some (s1, p)" "heap_inv s1 bs1"
    "bs1 = bs \<or> bs1 = alloc_layout (unat (align_size n)) bs"
    "heap_start s1 = heap_start s" "heap_end s1 = heap_end s" by blast
  then show ?thesis using naf_alloc_layout [of bs "unat (align_size n)"] by auto
qed

lemma run_keeps_inv:
  assumes "heap_inv s bs" "in_contract s ops"
  shows "\<exists>s1 bs1. run s ops = Some s1 \<and> heap_inv s1 bs1
           \<and> heap_start s1 = heap_start s \<and> heap_end s1 = heap_end s
           \<and> (no_adjacent_free bs \<longrightarrow> no_adjacent_free bs1)"
  using assms
proof (induction ops arbitrary: s bs)
  case Nil
  then show ?case by auto
next
  case (Cons op ops)
  show ?case
  proof (cases op)
    case (Malloc n)
    with Cons.prems have n: "align_size n \<noteq> 0" by simp
    from malloc_keeps_inv [OF Cons.prems(1) n] obtain s1 p bs1 where
      m: "malloc s n = Some (s1, p)" and i1: "heap_inv s1 bs1"
      and f: "heap_start s1 = heap_start s" "heap_end s1 = heap_end s"
      and naf: "no_adjacent_free bs \<longrightarrow> no_adjacent_free bs1" by blast
    from Cons.prems(2) Malloc m have "in_contract s1 ops" by simp
    from Cons.IH [OF i1 this] show ?thesis using Malloc m f naf by auto
  next
    case (Free p)
    with Cons.prems have rel: "releasable s p" and ic: "in_contract (free s p) ops" by simp_all
    from free_keeps_inv [OF Cons.prems(1) rel] obtain bs1 where
      i1: "heap_inv (free s p) bs1"
      and f: "heap_start (free s p) = heap_start s" "heap_end (free s p) = heap_end s"
      and naf: "no_adjacent_free bs \<longrightarrow> no_adjacent_free bs1" by blast
    from Cons.IH [OF i1 ic] show ?thesis using Free f naf by auto
  qed
qed

lemma chain_sizes_dvd: "chain m a pv cs \<Longrightarrow> \<forall>b\<in>set cs. 8 dvd fst b"
proof (induction cs arbitrary: a pv)
  case Nil
  then show ?case by simp
next
  case (Cons c cs)
  obtain sz u where c: "c = (sz, u)" by (cases c)
  from Cons.prems c have "8 dvd sz" "chain m (a + sz) sz cs" by auto
  with Cons.IH c show ?case by auto
qed

lemma heap_inv_walk:
  assumes "heap_inv s bs"
  shows "arena_layout s = Some bs"
    and "total_size bs = unat (heap_end s) - unat (heap_start s)"
    and "\<forall>x. unat (heap_start s) \<le> x \<and> x < unat (heap_end s)
           \<longrightarrow> visits (unat (heap_start s)) bs x = 1"
    and "backlinks (mem s) (unat (heap_start s)) bs
           = (if bs = [] then [] else 0 # map fst (butlast bs))"
    and "\<forall>b\<in>set bs. 8 dvd fst b"
proof -
  from assms have e: "unat (heap_start s) + total_size bs = unat (heap_end s)"
    and ch: "chain (mem s) (unat (heap_start s)) 0 bs" by (auto simp: heap_inv_def)
  show "arena_layout s = Some bs" using assms by (rule heap_inv_layout)
  show "total_size bs = unat (heap_end s) - unat (heap_start s)" using e by simp
  show "\<forall>x. unat (heap_start s) \<le> x \<and> x < unat (heap_end s)
           \<longrightarrow> visits (unat (heap_start s)) bs x = 1"
    using visits_once [OF ch] e by simp
  show "backlinks (mem s) (unat (heap_start s)) bs
           = (if bs = [] then [] else 0 # map fst (butlast bs))"
    using backlinks_chain [OF ch] e unat_lt32 [of "heap_end s"] by simp
  from ch show "\<forall>b\<in>set bs. 8 dvd fst b" by (rule chain_sizes_dvd)
qed

lemma mem_of_Nil: "mem_of [] a = 0"
  by (simp add: mem_of_def)

lemma mem_of_Cons: "mem_of ((k, v) # xs) a = (if a = k then v else mem_of xs a)"
  by (simp add: mem_of_def)

lemma zero_mem: "(\<lambda>a. 0) = mem_of []"
  by (simp add: mem_of_def)

lemma mem_of_filter:
  "mem_of (filter (\<lambda>e. fst e \<noteq> k) xs) a = (if a = k then 0 else mem_of xs a)"
proof (induction xs)
  case Nil
  then show ?case by (simp add: mem_of_Nil)
next
  case (Cons x xs)
  obtain k1 b1 where x: "x = (k1, b1)" by (cases x)
  from Cons show ?case by (auto simp: x mem_of_Cons)
qed

lemma mem_of_ins:
  "k \<notin> fst ` set xs \<Longrightarrow> mem_of (ins k b xs) a = (if a = k then b else mem_of xs a)"
proof (induction xs)
  case Nil
  then show ?case by (simp add: mem_of_Cons)
next
  case (Cons x xs)
  obtain k1 b1 where x: "x = (k1, b1)" by (cases x)
  from Cons show ?case by (auto simp: x mem_of_Cons)
qed

lemma mem_of_put: "mem_of (put k b xs) = (mem_of xs)(k := b)"
proof (rule ext)
  fix a
  have "k \<notin> fst ` set (filter (\<lambda>e. fst e \<noteq> k) xs)" by auto
  then show "mem_of (put k b xs) a = ((mem_of xs)(k := b)) a"
    by (simp add: put_def mem_of_ins mem_of_filter)
qed

lemma store32_mem_of:
  "store32 (mem_of xs) a v =
     mem_of (put (a + 3) (ucast (drop_bit 24 v)) (put (a + 2) (ucast (drop_bit 16 v))
             (put (a + 1) (ucast (drop_bit 8 v)) (put a (ucast v) xs))))"
  by (simp add: store32_def mem_of_put)


lemmas heap_eval =
  demo_heap_def heap_init_def boot_def zero_mem set_size_def set_prev_size_def get_size_def
  get_prev_size_def store32_mem_of load32_def mem_of_Nil mem_of_Cons put_def ins.simps malloc_def
  malloc_loop.simps take_block_def free_def coalesce_next_def coalesce_prev_def Let_def
  align_size_def BLOCK_USED_def BLOCK_SIZE_MASK_def MIN_BLOCK_SIZE_def ALIGNMENT_def
  HEADER_SIZE_def NULL_def arena_layout_def walk.simps arena_backlinks_def header_at_def

lemma malloc_free_roundtrip:
  assumes inv: "heap_inv s bs" and naf: "no_adjacent_free bs"
    and n: "n \<noteq> 0" "align_size n \<noteq> 0"
    and m: "malloc s n = Some (s1, p)" "p \<noteq> NULL"
  shows "heap_inv (free s1 p) bs"
proof -
  let ?nd = "unat (align_size n)"
  from first_fit_split [of bs ?nd] show ?thesis
  proof
    assume "\<forall>b\<in>set bs. unfit ?nd b"
    from malloc_none_fit [OF inv this] m show ?thesis by simp
  next
    assume "\<exists>pre sz post. bs = pre @ (sz, False) # post \<and> (\<forall>b\<in>set pre. unfit ?nd b) \<and> ?nd \<le> sz"
    then obtain pre sz post where bs: "bs = pre @ (sz, False) # post"
      and un: "\<forall>b\<in>set pre. unfit ?nd b" and fit: "?nd \<le> sz" by blast
    from malloc_fit [OF inv [unfolded bs] un fit n] m
    have p: "p = block_ptr s pre" and i1: "heap_inv s1 (pre @ taken ?nd sz @ post)"
      and hs: "heap_start s1 = heap_start s" by auto
    from p hs have p1: "p = block_ptr s1 pre" by (simp add: block_ptr_def)
    note rt = free_layout_taken [OF naf [unfolded bs] fit]
    show ?thesis
    proof (cases "?nd + 16 \<le> sz")
      case True
      with i1 have "heap_inv s1 (pre @ (?nd, True) # (sz - ?nd, False) # post)"
        by (simp add: taken_def)
      from free_heap_inv(1) [OF this] rt True show ?thesis by (simp add: p1 bs)
    next
      case False
      with i1 have "heap_inv s1 (pre @ (sz, True) # post)" by (simp add: taken_def)
      from free_heap_inv(1) [OF this] rt False show ?thesis by (simp add: p1 bs)
    qed
  qed
qed

lemma demo_ok: "heap_init_ok 0x1000 64"
  by (simp add: heap_init_ok_def ALIGNMENT_def)

lemma coalesce_next_acc_fst: "fst (coalesce_next_acc s m block bsz) = coalesce_next s m block bsz"
  by (simp add: coalesce_next_acc_def coalesce_next_def Let_def)

lemma coalesce_prev_acc_fst: "fst (coalesce_prev_acc s m block bsz) = coalesce_prev s m block bsz"
  by (simp add: coalesce_prev_acc_def coalesce_prev_def Let_def)

lemma free_acc_state: "fst (free_acc s ptr) = free s ptr"
  by (simp add: free_acc_def free_def Let_def split_beta coalesce_next_acc_fst
      coalesce_prev_acc_fst)

lemma free_acc_valid:
  assumes "ptr \<noteq> NULL" "heap_start s \<noteq> NULL"
    and "heap_start s \<le> ptr - HEADER_SIZE" "ptr - HEADER_SIZE < heap_end s"
  shows "\<exists>acc. snd (free_acc s ptr)
           = Load (ptr - HEADER_SIZE) # Store (ptr - HEADER_SIZE) # Load (ptr - HEADER_SIZE) # acc"
  using assms by (simp add: free_acc_def Let_def split_beta not_less [symmetric])

lemma in_contract_take: "in_contract s ops \<Longrightarrow> in_contract s (take k ops)"
proof (induction ops arbitrary: s k)
  case Nil
  then show ?case by simp
next
  case (Cons op ops)
  show ?case
  proof (cases k)
    case 0
    then show ?thesis by simp
  next
    case (Suc j)
    from Cons.prems Cons.IH show ?thesis
      by (cases op) (auto simp: Suc split: option.splits)
  qed
qed

lemma init_run_inv:
  assumes "heap_init_ok start sz" "in_contract (heap_init s0 start sz) ops"
  shows "\<exists>s bs. run (heap_init s0 start sz) ops = Some s \<and> heap_inv s bs \<and> no_adjacent_free bs
           \<and> heap_start s = heap_start (heap_init s0 start sz)
           \<and> heap_end s = heap_end (heap_init s0 start sz)"
proof -
  let ?bs = "if heap_end (heap_init s0 start sz) = heap_start (heap_init s0 start sz) then []
             else [(unat (heap_end (heap_init s0 start sz)) - unat (heap_start (heap_init s0 start sz)),
                    False)]"
  have naf: "no_adjacent_free ?bs" by simp
  from run_keeps_inv [OF heap_init_inv [OF assms(1)] assms(2)] naf show ?thesis by blast
qed

lemma malloc_free_roundtrip_layout:
  assumes "heap_inv s bs" "no_adjacent_free bs" "n \<noteq> 0" "align_size n \<noteq> 0"
    and "malloc s n = Some (s1, p)" "p \<noteq> NULL"
  shows "arena_layout (free s1 p) = arena_layout s"
    and "arena_backlinks (free s1 p) = arena_backlinks s"
    and "heap_start (free s1 p) = heap_start s" and "heap_end (free s1 p) = heap_end s"
proof -
  note i1 = malloc_free_roundtrip [OF assms]
  from malloc_heap_inv [OF assms(1,4)] assms(5)
  have f: "heap_start s1 = heap_start s" "heap_end s1 = heap_end s" by auto
  have g: "heap_start (free s1 p) = heap_start s1" "heap_end (free s1 p) = heap_end s1"
    by (simp_all add: free_def Let_def split_beta)
  from f g show "heap_start (free s1 p) = heap_start s" "heap_end (free s1 p) = heap_end s"
    by simp_all
  then have st: "unat (heap_start (free s1 p)) = unat (heap_start s)" by simp
  from heap_inv_walk(1) [OF i1] heap_inv_walk(1) [OF assms(1)]
  show "arena_layout (free s1 p) = arena_layout s" by simp
  from heap_inv_walk(1,4) [OF i1] heap_inv_walk(1,4) [OF assms(1)] st
  show "arena_backlinks (free s1 p) = arena_backlinks s" by (simp add: arena_backlinks_def)
qed

lemma total_size_dvd: "\<forall>b\<in>set bs. 8 dvd fst b \<Longrightarrow> 8 dvd total_size bs"
  by (induction bs) auto

lemma block_ptr_unat:
  assumes inv: "heap_inv s (pre @ b # post)"
  shows "unat (block_ptr s pre) = unat (heap_start s) + total_size pre + 8"
    and "8 dvd unat (block_ptr s pre)"
    and "block_ptr s pre \<noteq> NULL"
proof -
  from inv have e: "unat (heap_start s) + total_size (pre @ b # post) = unat (heap_end s)"
    and top: "unat (heap_end s) + 16 \<le> 2 ^ 32" and al: "8 dvd unat (heap_start s)"
    and ch: "chain (mem s) (unat (heap_start s)) 0 (pre @ b # post)"
    by (auto simp: heap_inv_def)
  from e top have lt: "unat (heap_start s) + total_size pre + 8 < 2 ^ 32" by simp
  have "block_ptr s pre = of_nat (unat (heap_start s) + total_size pre + 8)"
    by (simp add: block_ptr_def HEADER_SIZE_def)
  then show u: "unat (block_ptr s pre) = unat (heap_start s) + total_size pre + 8"
    using lt by (simp only: w32_unat_of_nat)
  from chain_sizes_dvd [OF ch] have "8 dvd total_size pre" by (intro total_size_dvd) auto
  with al show "8 dvd unat (block_ptr s pre)" unfolding u by simp
  from u show "block_ptr s pre \<noteq> NULL" by (auto simp: NULL_def)
qed

lemma malloc_result:
  assumes inv: "heap_inv s bs" and m: "malloc s n = Some (s1, p)"
  shows "(p = NULL \<and> s1 = s) \<or> (\<exists>pre b post. bs = pre @ b # post \<and> p = block_ptr s pre)"
proof (cases "n = 0")
  case True
  with m show ?thesis by (simp add: malloc_def)
next
  case False
  let ?nd = "unat (align_size n)"
  from inv have st: "heap_start s \<noteq> NULL"
    and e: "unat (heap_start s) + total_size bs = unat (heap_end s)"
    and ch: "chain (mem s) (unat (heap_start s)) 0 bs" by (auto simp: heap_inv_def)
  note scan = malloc_loop_scan [OF ch e unat_lt32, of "align_size n"]
  show ?thesis
  proof (cases "dropWhile (unfit ?nd) bs")
    case Nil
    with scan have "malloc_loop s (of_nat ?nd) (of_nat (unat (heap_start s))) = Some (s, NULL)"
      by simp
    with m False st show ?thesis by (simp add: malloc_def)
  next
    case (Cons b post)
    with scan have "malloc_loop s (of_nat ?nd) (of_nat (unat (heap_start s)))
        = Some (take_block s (of_nat ?nd)
                  (of_nat (unat (heap_start s) + total_size (takeWhile (unfit ?nd) bs)))
                  (of_nat (fst b)),
                of_nat (unat (heap_start s) + total_size (takeWhile (unfit ?nd) bs)) + HEADER_SIZE)"
      by simp
    with m False st
    have "p = of_nat (unat (heap_start s) + total_size (takeWhile (unfit ?nd) bs)) + HEADER_SIZE"
      by (simp add: malloc_def)
    then have "p = block_ptr s (takeWhile (unfit ?nd) bs)" by (simp add: block_ptr_def)
    moreover have "bs = takeWhile (unfit ?nd) bs @ b # post"
      using takeWhile_dropWhile_id [of "unfit ?nd" bs] Cons by simp
    ultimately show ?thesis by blast
  qed
qed


lemma malloc_null_same:
  assumes inv: "heap_inv s bs" and m: "malloc s n = Some (s1, NULL)"
  shows "s1 = s"
  using malloc_result [OF inv m]
proof
  assume "NULL = NULL \<and> s1 = s"
  then show ?thesis by simp
next
  assume "\<exists>pre b post. bs = pre @ b # post \<and> NULL = block_ptr s pre"
  then obtain pre b post where bs: "bs = pre @ b # post" and p: "NULL = block_ptr s pre" by blast
  from block_ptr_unat(3) [OF inv [unfolded bs]] p show ?thesis by simp
qed




lemma realloc_fail:
  assumes inv: "heap_inv s bs" and p: "p \<noteq> NULL" and n: "n \<noteq> 0"
    and big: "\<not> align_size n \<le> (get_size (mem s) (p - HEADER_SIZE) AND BLOCK_SIZE_MASK)"
    and m: "malloc s n = Some (s1, NULL)"
  shows "realloc s p n = Some (s, NULL)"
proof -
  from malloc_null_same [OF inv m] have "s1 = s" .
  with m p n big show ?thesis by (simp add: realloc_def Let_def)
qed

lemma sint_small: "(w :: u32) < 0x80000000 \<Longrightarrow> sint w = uint w"
proof -
  assume "w < 0x80000000"
  then have "uint w < 2 ^ 31" by (simp add: word_less_def)
  moreover have "- (2 ^ 31) \<le> uint w"
  proof -
    have "- 2147483648 \<le> uint w" using uint_ge_0 [of w] by linarith
    then show ?thesis by simp
  qed
  moreover have "sint w = signed_take_bit 31 (uint w)" by (simp add: sint_uint)
  ultimately show ?thesis by (simp only: signed_take_bit_int_eq_self)
qed

lemma sint_add_cases:
  fixes a b :: u32
  shows "sint (a + b) = signed_take_bit 31 (sint a + sint b)"
  using sint_word_ariths(1) [of a b] by simp

lemma fseek_general:
  assumes sz: "fsize f < 0x80000000" and off: "offset f \<le> fsize f"
    and wh: "whence = SEEK_SET \<or> whence = SEEK_CUR \<or> whence = SEEK_END"
    and b: "base = (if whence = SEEK_SET then 0 else if whence = SEEK_CUR then offset f
                    else fsize f)"
  shows "fseek (Some f) d whence =
           (if uint base + sint d < 0 \<or> uint (fsize f) < uint base + sint d
            then (- 1, Some f)
            else (0, Some (f\<lparr>offset := of_int (uint base + sint d)\<rparr>)))"
proof -
  let ?r = "uint base + sint d"
  from off b have bl: "base \<le> fsize f" by auto
  then have bf: "uint base \<le> uint (fsize f)" by (simp add: word_le_def)
  from sz have fz: "uint (fsize f) < 2147483648" by (simp add: word_less_def)
  from bl sz have bs: "base < 0x80000000" by (rule le_less_trans)
  have b0: "0 \<le> uint base" by simp
  have new: "(if whence = SEEK_SET then d else if whence = SEEK_CUR then offset f + d
              else fsize f + d) = base + d"
    using b by simp
  have sb: "sint base = uint base" using bs by (rule sint_small)
  have s: "sint (base + d) = signed_take_bit 31 ?r" by (simp add: sint_add_cases sb)
  have dr: "- 2147483648 \<le> sint d" "sint d < 2147483648"
    using sint_ge [of d] sint_lt [of d] by simp_all
  have w: "base + d = of_int ?r" by simp
  consider "?r < 0" | "0 \<le> ?r" "?r < 2147483648" | "2147483648 \<le> ?r" by linarith
  then have "(sint (base + d) < 0 \<or> fsize f < base + d)
              \<longleftrightarrow> (?r < 0 \<or> uint (fsize f) < ?r)"
  proof cases
    case 1
    from dr(1) uint_ge_0 [of base] have "- 2147483648 \<le> ?r" by linarith
    with 1 have "- (2 ^ 31) \<le> ?r" "?r < 2 ^ 31" by simp_all
    then have "signed_take_bit 31 ?r = ?r" by (rule signed_take_bit_int_eq_self)
    with 1 s show ?thesis by simp
  next
    case 2
    then have "- (2 ^ 31) \<le> ?r" "?r < 2 ^ 31" by simp_all
    then have st: "signed_take_bit 31 ?r = ?r" by (rule signed_take_bit_int_eq_self)
    from 2 have "take_bit 32 ?r = ?r" by (simp add: take_bit_int_eq_self)
    then have "uint (of_int ?r :: u32) = ?r" by (simp add: uint_word_of_int_eq del: of_int_add)
    then have "uint (base + d) = ?r" by (simp only: w)
    then have "fsize f < base + d \<longleftrightarrow> uint (fsize f) < ?r"
      by (simp add: word_less_def)
    with 2 s st show ?thesis by simp
  next
    case 3
    then have "2 ^ 31 \<le> ?r" by simp
    from signed_take_bit_int_less_eq [OF this]
    have "signed_take_bit 31 ?r \<le> ?r - 4294967296" by simp
    with dr bf fz have "signed_take_bit 31 ?r < 0" by linarith
    moreover from 3 fz have "uint (fsize f) < ?r" by simp
    ultimately show ?thesis using s by simp
  qed
  then show ?thesis using wh
    unfolding fseek_def option.case Let_def new w [symmetric] by auto
qed

lemma fread_general:
  assumes ptr: "ptr \<noteq> NULL" and sz: "sz \<noteq> 0" and nm: "nmemb \<noteq> 0"
    and off: "offset f \<le> fsize f"
    and nowrap: "unat sz * unat nmemb < 2 ^ 32"
    and n: "n = min (unat nmemb) ((unat (fsize f) - unat (offset f)) div unat sz)"
    and rd: "data f = NULL
             \<Longrightarrow> slot_read br (ucast (slot_id f)) (offset f) (of_nat (n * unat sz)) = Some bytes"
  shows "fread br m ptr sz nmemb (Some f) =
           (if n = 0 then (0, m, Some f)
            else (of_nat n,
                  if data f \<noteq> NULL then memcpy m ptr (data f + offset f) (of_nat (n * unat sz))
                  else write_buffer m ptr bytes (of_nat (n * unat sz)),
                  Some (f\<lparr>offset := offset f + of_nat (n * unat sz)\<rparr>)))"
proof -
  let ?S = "unat sz" and ?N = "unat nmemb" and ?A = "unat (fsize f) - unat (offset f)"
  define nmemb1 where "nmemb1 = (if fsize f - offset f < sz * nmemb
                                 then (fsize f - offset f) div sz else nmemb)"
  define total1 where "total1 = (if fsize f - offset f < sz * nmemb then nmemb1 * sz
                                 else sz * nmemb)"
  have S: "0 < ?S" using sz by (simp add: unat_gt_0)
  have ut: "unat (sz * nmemb) = ?S * ?N"
    using nowrap unat_mult_lem [of sz nmemb] by simp
  have ua: "unat (fsize f - offset f) = ?A" using off by (simp add: unat_sub)
  have lt: "fsize f - offset f < sz * nmemb \<longleftrightarrow> ?A < ?S * ?N"
    by (simp add: word_less_nat_alt ut ua)
  have un1: "unat nmemb1 = n"
  proof (cases "?A < ?S * ?N")
    case True
    then have "?A div ?S < ?N" using S by (simp add: less_mult_imp_div_less mult.commute)
    with n have "n = ?A div ?S" by simp
    moreover have "unat ((fsize f - offset f) div sz) = ?A div ?S" by (simp add: unat_div ua)
    moreover from True lt have "nmemb1 = (fsize f - offset f) div sz" by (simp add: nmemb1_def)
    ultimately show ?thesis by simp
  next
    case False
    then have "?S * ?N \<le> ?A" by simp
    then have "?N \<le> ?A div ?S" using S by (simp add: less_eq_div_iff_mult_less_eq mult.commute)
    with n have "n = ?N" by simp
    moreover from False lt have "nmemb1 = nmemb" by (simp add: nmemb1_def)
    ultimately show ?thesis by simp
  qed
  have "nmemb1 = of_nat (unat nmemb1)" by simp
  with un1 have n1: "nmemb1 = of_nat n" by simp
  have nS: "n * ?S < 2 ^ 32"
  proof -
    from n have "n \<le> ?N" by simp
    then have "n * ?S \<le> ?N * ?S" by (rule mult_le_mono1)
    also have "\<dots> = ?S * ?N" by (rule mult.commute)
    finally show ?thesis using nowrap by linarith
  qed
  have t1: "total1 = of_nat (n * ?S)"
  proof -
    have "total1 = nmemb1 * sz"
      by (simp add: total1_def nmemb1_def mult.commute)
    with n1 show ?thesis by simp
  qed
  have z: "total1 = 0 \<longleftrightarrow> n = 0"
  proof -
    have "unat total1 = n * ?S" unfolding t1 using nS by (simp only: w32_unat_of_nat)
    then show ?thesis using S by (simp add: unat_eq_0 [symmetric])
  qed
  have fr: "fread br m ptr sz nmemb (Some f) =
      (if total1 = 0 then (0, m, Some f)
       else if data f \<noteq> NULL then
         (nmemb1, memcpy m ptr (data f + offset f) total1, Some (f\<lparr>offset := offset f + total1\<rparr>))
       else (case dataslot_read br m (ucast (slot_id f)) (offset f) ptr total1 of
               (rc, m1) \<Rightarrow> if rc \<noteq> 0 then (0, m1, Some f)
                            else (nmemb1, m1, Some (f\<lparr>offset := offset f + total1\<rparr>))))"
    unfolding nmemb1_def total1_def using ptr sz nm by (simp add: fread_def Let_def)
  show ?thesis
  proof (cases "n = 0")
    case True
    with z fr show ?thesis by simp
  next
    case False
    with z have nz: "total1 \<noteq> 0" by simp
    show ?thesis
    proof (cases "data f = NULL")
      case True
      from rd [OF True] have "dataslot_read br m (ucast (slot_id f)) (offset f) ptr total1
          = (0, write_buffer m ptr bytes total1)"
        by (simp add: dataslot_read_def t1 del: of_nat_mult)
      with fr nz True False n1 show ?thesis by (simp add: t1 del: of_nat_mult)
    next
      case d: False
      with fr nz False n1 show ?thesis by (simp add: t1 del: of_nat_mult)
    qed
  qed
qed

lemma used_ptrs_append:
  "used_ptrs a (xs @ ys) = used_ptrs a xs @ used_ptrs (a + of_nat (total_size xs)) ys"
proof (induction xs arbitrary: a)
  case Nil
  then show ?case by simp
next
  case (Cons x xs)
  obtain sz u where x: "x = (sz, u)" by (cases x)
  from Cons [of "a + of_nat sz"] show ?case by (simp add: x add.assoc)
qed

lemma used_ptrs_merge_next:
  "used_ptrs a (merge_next sz post) = used_ptrs (a + of_nat sz) post"
proof (cases post)
  case Nil
  then show ?thesis by (simp add: merge_next_def)
next
  case (Cons b post2)
  obtain s2 u where b: "b = (s2, u)" by (cases b)
  show ?thesis by (cases u) (simp_all add: merge_next_def Cons b add.assoc)
qed

lemma used_ptrs_merge_prev:
  assumes "\<not> snd (hd rest)" "rest \<noteq> []"
  shows "used_ptrs a (merge_prev pre rest) = used_ptrs a (pre @ rest)"
proof (cases "pre \<noteq> [] \<and> \<not> snd (last pre)")
  case False
  then show ?thesis by (auto simp: merge_prev_def)
next
  case True
  obtain r u rest1 where rest: "rest = (r, u) # rest1" using assms(2) by (cases rest) auto
  with assms(1) have u: "\<not> u" by simp
  obtain l v where l: "last pre = (l, v)" by (cases "last pre")
  with True have v: "\<not> v" by simp
  from True have pre: "pre = butlast pre @ [(l, False)]" using l v
    by (metis append_butlast_last_id)
  have "used_ptrs a (pre @ rest)
      = used_ptrs a (butlast pre @ (l, False) # (r, False) # rest1)"
    using pre rest u by (metis append.assoc append_Cons append_Nil)
  also have "\<dots> = used_ptrs a (butlast pre @ (l + r, False) # rest1)"
    by (simp add: used_ptrs_append add.assoc)
  also have "\<dots> = used_ptrs a (merge_prev pre rest)"
    using True l rest by (simp add: merge_prev_def)
  finally show ?thesis by simp
qed

lemma merge_next_hd: "\<not> snd (hd (merge_next sz post))" "merge_next sz post \<noteq> []"
  by (auto simp: merge_next_def split: list.splits bool.splits)

lemma used_ptrs_free_layout:
  "used_ptrs a (free_layout pre sz post)
     = used_ptrs a pre @ used_ptrs (a + of_nat (total_size pre) + of_nat sz) post"
  unfolding free_layout_def
  by (simp add: used_ptrs_merge_prev [OF merge_next_hd] used_ptrs_append used_ptrs_merge_next)

lemma merge_next_hd_le: "fst (hd (merge_next sz (B @ (sb, True) # C))) \<le> sz + total_size B"
proof (cases B)
  case Nil
  then show ?thesis by (simp add: merge_next_def)
next
  case (Cons x B1)
  obtain s0 u where x: "x = (s0, u)" by (cases x)
  show ?thesis by (cases u) (simp_all add: merge_next_def Cons x)
qed

lemma two_blocks:
  assumes inv: "heap_inv s (A @ (sa, True) # B @ (sb, True) # C)"
    and pa: "pa = block_ptr s A" and pb: "pb = block_ptr s (A @ (sa, True) # B)"
    and na: "na + 8 \<le> sa" and nb: "nb + 8 \<le> sb"
  shows "unat pa + na \<le> unat pb"
    and "agree (unat pb) (unat pb + nb) (mem s) (mem (free s pa))"
    and "agree (unat pa) (unat pa + na) (mem s) (mem (free s pb))"
    and "\<exists>bs1. arena_layout (free s pa) = Some bs1 \<and> pb \<in> set (used_ptrs (heap_start s) bs1)"
    and "\<exists>bs1. arena_layout (free s pb) = Some bs1 \<and> pa \<in> set (used_ptrs (heap_start s) bs1)"
proof -
  let ?st = "unat (heap_start s)"
  let ?post = "B @ (sb, True) # C"
  let ?pre = "A @ (sa, True) # B"
  have inv2: "heap_inv s (?pre @ (sb, True) # C)" using inv by simp
  from inv have e: "?st + total_size A + sa + total_size B + sb + total_size C = unat (heap_end s)"
    by (simp add: heap_inv_def add.assoc)
  have ua: "unat pa = ?st + total_size A + 8" unfolding pa using inv by (rule block_ptr_unat(1))
  have ub: "unat pb = ?st + total_size A + sa + total_size B + 8"
    unfolding pb using block_ptr_unat(1) [OF inv2] by (simp add: add.assoc)
  have top: "unat pb + nb \<le> 2 ^ 32"
    using ub nb e unat_lt32 [of "heap_end s"] by simp
  show "unat pa + na \<le> unat pb" using ua ub na by simp
  have "agree (?st + total_size A + fst (hd (merge_next sa ?post)) + 8) (2 ^ 32)
          (mem s) (mem (free s pa))"
    unfolding pa using inv by (rule free_heap_inv(3))
  then show "agree (unat pb) (unat pb + nb) (mem s) (mem (free s pa))"
    using merge_next_hd_le [of sa B sb C] ub top by (elim agree_mono) simp_all
  let ?pre' = "if ?pre \<noteq> [] \<and> \<not> snd (last ?pre) then butlast ?pre else ?pre"
  have "agree 0 (?st + total_size ?pre') (mem s) (mem (free s pb))"
    unfolding pb using inv2 by (rule free_heap_inv(2))
  moreover have "total_size A + sa \<le> total_size ?pre'"
    by (cases "B = []") (simp_all add: butlast_append)
  ultimately show "agree (unat pa) (unat pa + na) (mem s) (mem (free s pb))"
    using ua na by (elim agree_mono) simp_all
  have "heap_inv (free s pa) (free_layout A sa ?post)"
    unfolding pa using inv by (rule free_heap_inv(1))
  then have "arena_layout (free s pa) = Some (free_layout A sa ?post)" by (rule heap_inv_layout)
  moreover have "pb \<in> set (used_ptrs (heap_start s) (free_layout A sa ?post))"
    using used_ptrs_member [of "heap_start s + of_nat (total_size A) + of_nat sa" B sb C]
    by (simp add: used_ptrs_free_layout pb block_ptr_def add.assoc)
  ultimately show "\<exists>bs1. arena_layout (free s pa) = Some bs1
      \<and> pb \<in> set (used_ptrs (heap_start s) bs1)" by blast
  have "heap_inv (free s pb) (free_layout ?pre sb C)"
    unfolding pb using inv2 by (rule free_heap_inv(1))
  then have "arena_layout (free s pb) = Some (free_layout ?pre sb C)" by (rule heap_inv_layout)
  moreover have "pa \<in> set (used_ptrs (heap_start s) (free_layout ?pre sb C))"
    using used_ptrs_member [of "heap_start s" A sa B]
    by (simp add: used_ptrs_free_layout pa block_ptr_def)
  ultimately show "\<exists>bs1. arena_layout (free s pb) = Some bs1
      \<and> pa \<in> set (used_ptrs (heap_start s) bs1)" by blast
qed

lemma unat_and_not7: "unat ((x :: u32) AND NOT 7) = unat x div 8 * 8"
proof -
  have "x AND NOT 7 = push_bit 3 (drop_bit 3 x)"
    unfolding seven_mask by (rule bit_word_eqI) (auto simp: bit_simps)
  then have "x AND NOT 7 = drop_bit 3 x * 8" by (simp add: push_bit_eq_mult)
  moreover have d: "unat (drop_bit 3 x) = unat x div 8"
    by (simp add: drop_bit_eq_div unat_div)
  moreover have "unat (drop_bit 3 x) * unat (8 :: u32) < 2 ^ 32"
    using unat_lt32 [of x] by (simp add: d)
  then have "unat (drop_bit 3 x * 8) = unat (drop_bit 3 x) * unat (8 :: u32)"
    using unat_mult_lem [of "drop_bit 3 x" "8 :: u32"] by simp
  ultimately show ?thesis by simp
qed

lemma align_size_ge:
  assumes "n \<le> 0xFFFFFFF0"
  shows "unat n + 8 \<le> unat (align_size n)"
proof -
  from assms have n: "unat n \<le> 4294967280" by (simp add: word_le_nat_alt)
  define t where "t = (if n + 8 < 16 then 16 else n + 8)"
  have n8: "unat (n + 8) = unat n + 8"
    using n unat_add_lem [of n 8] by simp
  have t: "unat n + 8 \<le> unat t" "unat t \<le> 4294967288"
    using n n8 by (auto simp: t_def word_less_nat_alt)
  have t7: "unat (t + 7) = unat t + 7"
    using t(2) unat_add_lem [of t 7] by simp
  have "align_size n = (t + 7) AND NOT 7"
    by (simp add: align_size_def Let_def t_def HEADER_SIZE_def MIN_BLOCK_SIZE_def ALIGNMENT_def)
  then have "unat (align_size n) = unat (t + 7) div 8 * 8" by (simp only: unat_and_not7)
  then have "unat (align_size n) = (unat t + 7) div 8 * 8" by (simp only: t7)
  with t(1) show ?thesis by linarith
qed

lemma write_buffer_agree:
  assumes "unat buf + unat len \<le> 2 ^ 32"
  shows "agree 0 (unat buf) m (write_buffer m buf bytes len)"
    and "agree (unat buf + unat len) (2 ^ 32) m (write_buffer m buf bytes len)"
proof -
  have out: "\<not> (of_nat x :: u32) - buf < len"
    if x: "x < 2 ^ 32" "x < unat buf \<or> unat buf + unat len \<le> x" for x
  proof -
    have ux: "unat (of_nat x :: u32) = x" using x(1) by (rule w32_unat_of_nat)
    have "unat len \<le> unat ((of_nat x :: u32) - buf)"
      using x(2) assms unat_lt32 [of buf] by (auto simp: unat_sub_if_size ux word_size)
    then show ?thesis by (simp add: word_less_nat_alt)
  qed
  show "agree 0 (unat buf) m (write_buffer m buf bytes len)"
    unfolding agree_def write_buffer_def using out unat_lt32 [of buf] by auto
  show "agree (unat buf + unat len) (2 ^ 32) m (write_buffer m buf bytes len)"
    unfolding agree_def write_buffer_def using out by auto
qed

lemma chain_payload:
  assumes ch: "chain m a pv (pre @ (sz, u) # post)"
    and lo: "agree a (a + total_size pre + 8) m m1"
    and hi: "agree (a + total_size pre + sz) (a + total_size pre + sz + total_size post) m m1"
  shows "chain m1 a pv (pre @ (sz, u) # post)"
proof -
  let ?b = "a + total_size pre"
  from ch have c1: "chain m a pv pre" and hd: "get_size m (of_nat ?b) = of_nat sz OR used_flag u"
    "get_prev_size m (of_nat ?b) = of_nat (last_size pv pre)" "0 < sz" "8 dvd sz"
    and c2: "chain m (?b + sz) sz post" by (simp_all add: chain_append)
  from lo have "agree a (a + total_size pre) m m1" by (rule agree_mono) simp_all
  with c1 have d1: "chain m1 a pv pre" by (rule chain_agree)
  from lo have "agree ?b (?b + 4) m m1" by (rule agree_mono) simp_all
  then have g1: "get_size m1 (of_nat ?b) = get_size m (of_nat ?b)" by (rule get_size_agree)
  from lo have "agree (?b + 4) (?b + 8) m m1" by (rule agree_mono) simp_all
  then have g2: "get_prev_size m1 (of_nat ?b) = get_prev_size m (of_nat ?b)"
    by (rule get_prev_size_agree)
  from c2 hi have d2: "chain m1 (?b + sz) sz post" by (rule chain_agree)
  from d1 d2 hd g1 g2 show ?thesis by (simp add: chain_append)
qed

lemma taken_shape:
  assumes "nd \<le> sz"
  shows "\<exists>k rest. taken nd sz = (k, True) # rest \<and> k + total_size rest = sz \<and> nd \<le> k"
  using assms by (auto simp: taken_def)

lemma mmap_ok:
  assumes inv: "heap_inv s bs" and len: "len \<le> 0xFFFFFFF0"
    and mm: "mmap br t s len fd off = Some (s1, p)" and ok: "p \<noteq> MAP_FAILED"
  shows "\<exists>pre sz post k rest. bs = pre @ (sz, False) # post \<and> k + total_size rest = sz
           \<and> p = block_ptr s pre \<and> heap_inv s1 (pre @ (k, True) # rest @ post)
           \<and> unat len + 8 \<le> k \<and> heap_start s1 = heap_start s \<and> heap_end s1 = heap_end s"
proof -
  let ?nd = "unat (align_size len)"
  let ?st = "unat (heap_start s)"
  from mm ok obtain s' bytes where m: "malloc s len = Some (s', p)" and pn: "p \<noteq> NULL"
    and s1: "s1 = s'\<lparr>mem := write_buffer (mem s') p bytes len\<rparr>"
    by (auto simp: mmap_def Let_def dataslot_read_def
        split: option.splits if_splits prod.splits)
  from m pn have l0: "len \<noteq> 0" by (auto simp: malloc_def)
  from align_size_ge [OF len] have ge: "unat len + 8 \<le> ?nd" .
  then have a0: "align_size len \<noteq> 0" by (auto simp: unat_eq_0 [symmetric])
  from first_fit_split [of bs ?nd] show ?thesis
  proof
    assume "\<forall>b\<in>set bs. unfit ?nd b"
    from malloc_none_fit [OF inv this] m pn show ?thesis by simp
  next
    assume "\<exists>pre sz post. bs = pre @ (sz, False) # post \<and> (\<forall>b\<in>set pre. unfit ?nd b) \<and> ?nd \<le> sz"
    then obtain pre sz post where bs: "bs = pre @ (sz, False) # post"
      and un: "\<forall>b\<in>set pre. unfit ?nd b" and fit: "?nd \<le> sz" by blast
    from malloc_fit [OF inv [unfolded bs] un fit l0 a0] m
    have p: "p = block_ptr s pre" and i1: "heap_inv s' (pre @ taken ?nd sz @ post)"
      and hs: "heap_start s' = heap_start s" "heap_end s' = heap_end s" by auto
    from taken_shape [OF fit] obtain k rest where tk: "taken ?nd sz = (k, True) # rest"
      and kr: "k + total_size rest = sz" and nk: "?nd \<le> k" by blast
    from i1 tk have i2: "heap_inv s' (pre @ (k, True) # rest @ post)" by simp
    have p': "p = block_ptr s' pre" using p hs by (simp add: block_ptr_def)
    from block_ptr_unat(1) [OF i2] have up: "unat p = ?st + total_size pre + 8"
      by (simp add: p' hs)
    from i2 have e: "?st + total_size pre + k + total_size rest + total_size post = unat (heap_end s)"
      and ch: "chain (mem s') ?st 0 (pre @ (k, True) # rest @ post)"
      by (simp_all add: heap_inv_def hs add.assoc)
    have top: "unat p + unat len \<le> ?st + total_size pre + k" using up ge nk by simp
    with e have top32: "unat p + unat len \<le> 2 ^ 32" using unat_lt32 [of "heap_end s"] by simp
    note wa = write_buffer_agree [OF top32, of "mem s'" bytes]
    have ms: "mem s1 = write_buffer (mem s') p bytes len" by (simp add: s1)
    have lo: "agree ?st (?st + total_size pre + 8) (mem s') (mem s1)"
      unfolding ms using wa(1) by (rule agree_mono) (simp_all add: up)
    have hi: "agree (?st + total_size pre + k)
                (?st + total_size pre + k + total_size (rest @ post)) (mem s') (mem s1)"
      unfolding ms using wa(2)
      by (rule agree_mono) (use top e unat_lt32 [of "heap_end s"] in simp_all)
    from chain_payload [OF ch lo hi] i2 have i3: "heap_inv s1 (pre @ (k, True) # rest @ post)"
      by (simp add: heap_inv_def s1 hs)
    have lk: "unat len + 8 \<le> k" using ge nk by simp
    have hs1: "heap_start s1 = heap_start s" "heap_end s1 = heap_end s" by (simp_all add: s1 hs)
    from bs kr p i3 lk hs1 show ?thesis by blast
  qed
qed

lemma munmap_free: "p \<noteq> NULL \<Longrightarrow> p \<noteq> MAP_FAILED \<Longrightarrow> fst (munmap s p len) = free s p"
  by (simp add: munmap_def)

lemma mmap_twice:
  assumes inv: "heap_inv s bs" and len1: "len1 \<le> 0xFFFFFFF0" and len2: "len2 \<le> 0xFFFFFFF0"
    and mm1: "mmap br t s len1 fd off1 = Some (s1, p1)" and ok1: "p1 \<noteq> MAP_FAILED"
    and mm2: "mmap br t s1 len2 fd off2 = Some (s2, p2)" and ok2: "p2 \<noteq> MAP_FAILED"
  shows "unat p1 + unat len1 \<le> unat p2 \<or> unat p2 + unat len2 \<le> unat p1"
    and "agree (unat p2) (unat p2 + unat len2) (mem s2) (mem (fst (munmap s2 p1 len1)))"
    and "agree (unat p1) (unat p1 + unat len1) (mem s2) (mem (fst (munmap s2 p2 len2)))"
    and "\<exists>bs3. arena_layout (fst (munmap s2 p1 len1)) = Some bs3
           \<and> p2 \<in> set (used_ptrs (heap_start s2) bs3)"
    and "\<exists>bs3. arena_layout (fst (munmap s2 p2 len2)) = Some bs3
           \<and> p1 \<in> set (used_ptrs (heap_start s2) bs3)"
proof -
  from mmap_ok [OF inv len1 mm1 ok1] obtain pre0 sz0 post0 k1 rest1 where
    p1: "p1 = block_ptr s pre0" and inv1: "heap_inv s1 (pre0 @ (k1, True) # rest1 @ post0)"
    and l1: "unat len1 + 8 \<le> k1" and hs1: "heap_start s1 = heap_start s" by blast
  from mmap_ok [OF inv1 len2 mm2 ok2] obtain pre sz post k2 rest2 where
    L1: "pre0 @ (k1, True) # rest1 @ post0 = pre @ (sz, False) # post"
    and kr: "k2 + total_size rest2 = sz"
    and p2: "p2 = block_ptr s1 pre" and inv2: "heap_inv s2 (pre @ (k2, True) # rest2 @ post)"
    and l2: "unat len2 + 8 \<le> k2" and hs2: "heap_start s2 = heap_start s1" by blast
  from block_ptr_unat(3) [OF inv1] p1 hs1 have n1: "p1 \<noteq> NULL" by (simp add: block_ptr_def)
  from block_ptr_unat(3) [OF inv2] p2 hs2 have n2: "p2 \<noteq> NULL" by (simp add: block_ptr_def)
  note mf = munmap_free [OF n1 ok1] munmap_free [OF n2 ok2]
  from L1 consider us where "pre = pre0 @ (k1, True) # us"
    | us where "pre0 = pre @ (sz, False) # us" "post = us @ (k1, True) # rest1 @ post0"
    by (auto simp: append_eq_append_conv2 append_eq_Cons_conv Cons_eq_append_conv)
  then have "(unat p1 + unat len1 \<le> unat p2 \<or> unat p2 + unat len2 \<le> unat p1)
      \<and> agree (unat p2) (unat p2 + unat len2) (mem s2) (mem (free s2 p1))
      \<and> agree (unat p1) (unat p1 + unat len1) (mem s2) (mem (free s2 p2))
      \<and> (\<exists>bs3. arena_layout (free s2 p1) = Some bs3 \<and> p2 \<in> set (used_ptrs (heap_start s2) bs3))
      \<and> (\<exists>bs3. arena_layout (free s2 p2) = Some bs3 \<and> p1 \<in> set (used_ptrs (heap_start s2) bs3))"
  proof cases
    case 1
    from inv2 have i: "heap_inv s2 (pre0 @ (k1, True) # us @ (k2, True) # rest2 @ post)"
      by (simp add: 1)
    have pa: "p1 = block_ptr s2 pre0" using p1 hs1 hs2 by (simp add: block_ptr_def)
    have pb: "p2 = block_ptr s2 (pre0 @ (k1, True) # us)"
      using p2 hs2 by (simp add: block_ptr_def 1)
    from two_blocks [OF i pa pb l1 l2] show ?thesis by blast
  next
    case 2
    from inv2 have i: "heap_inv s2 (pre @ (k2, True) # (rest2 @ us) @ (k1, True) # rest1 @ post0)"
      by (simp add: 2)
    have pa: "p2 = block_ptr s2 pre" using p2 hs2 by (simp add: block_ptr_def)
    have "total_size pre0 = total_size (pre @ (k2, True) # rest2 @ us)"
      using kr by (simp add: 2)
    then have pb: "p1 = block_ptr s2 (pre @ (k2, True) # rest2 @ us)"
      using p1 hs1 hs2 by (simp add: block_ptr_def)
    from two_blocks [OF i pa pb l2 l1] show ?thesis by blast
  qed
  then show "unat p1 + unat len1 \<le> unat p2 \<or> unat p2 + unat len2 \<le> unat p1"
    and "agree (unat p2) (unat p2 + unat len2) (mem s2) (mem (fst (munmap s2 p1 len1)))"
    and "agree (unat p1) (unat p1 + unat len1) (mem s2) (mem (fst (munmap s2 p2 len2)))"
    and "\<exists>bs3. arena_layout (fst (munmap s2 p1 len1)) = Some bs3
           \<and> p2 \<in> set (used_ptrs (heap_start s2) bs3)"
    and "\<exists>bs3. arena_layout (fst (munmap s2 p2 len2)) = Some bs3
           \<and> p1 \<in> set (used_ptrs (heap_start s2) bs3)"
    by (simp_all add: mf)
qed


section \<open>Statements of the specification\<close>

text \<open>
  C1, as amended.  Take an arena set up by \<open>heap_init\<close> on a region that does
  not start at address 0, holds the alignment padding and ends at least 16
  bytes below the top of the address space (\<open>heap_init_ok\<close>), and a sequence
  of malloc and free calls in which every pointer released is null, has its
  header address outside the arena, or is the address malloc returned for a
  block that is in use at that moment, and in which no request size is one of
  the seven values \<open>0xFFFFFFF1\<close> to \<open>0xFFFFFFF7\<close> that \<open>align_size\<close> pads to 0
  (\<open>in_contract\<close>).  Then every call returns, and in the state reached the
  walk from the arena start, advancing by each block's size, ends exactly at
  the arena end, the block sizes add up to the arena size, and every byte of
  the arena lies in exactly one block.
\<close>

theorem walk_covers_arena:
  assumes "heap_init_ok start sz" and "in_contract (heap_init s0 start sz) ops"
  shows "\<exists>s bs. run (heap_init s0 start sz) ops = Some s
           \<and> arena_layout s = Some bs
           \<and> total_size bs = unat (heap_end s) - unat (heap_start s)
           \<and> (\<forall>x. unat (heap_start s) \<le> x \<and> x < unat (heap_end s)
                  \<longrightarrow> visits (unat (heap_start s)) bs x = 1)"
proof -
  from init_run_inv [OF assms] obtain s bs where
    r: "run (heap_init s0 start sz) ops = Some s" and inv: "heap_inv s bs" by blast
  from r heap_inv_walk(1-3) [OF inv] show ?thesis by blast
qed

text \<open>
  The amended statement at the 64-byte arena at \<open>0x1000\<close>: two allocations and
  the release of the first leave a free block of 16 bytes, a used block of 32
  and a free block of 16.
\<close>

theorem walk_covers_arena_witness:
  "heap_init_ok 0x1000 64
   \<and> in_contract (heap_init boot 0x1000 64) [Malloc 8, Malloc 24, Free 0x1008]
   \<and> map_option arena_layout (run (heap_init boot 0x1000 64) [Malloc 8, Malloc 24, Free 0x1008])
       = Some (Some [(16, False), (32, True), (16, False)])
   \<and> (\<exists>s bs. run (heap_init boot 0x1000 64) [Malloc 8, Malloc 24, Free 0x1008] = Some s
           \<and> arena_layout s = Some bs
           \<and> total_size bs = unat (heap_end s) - unat (heap_start s)
           \<and> (\<forall>x. unat (heap_start s) \<le> x \<and> x < unat (heap_end s)
                  \<longrightarrow> visits (unat (heap_start s)) bs x = 1))"
proof -
  have ok: "heap_init_ok 0x1000 64"
    by (simp add: heap_init_ok_def ALIGNMENT_def)
  have ic: "in_contract (heap_init boot 0x1000 64) [Malloc 8, Malloc 24, Free 0x1008]"
    by (simp add: heap_eval releasable_def cong: let_weak_cong)
  have ev: "map_option arena_layout
              (run (heap_init boot 0x1000 64) [Malloc 8, Malloc 24, Free 0x1008])
            = Some (Some [(16, False), (32, True), (16, False)])"
    by (simp add: heap_eval cong: let_weak_cong)
  from walk_covers_arena [OF ok ic] ok ic ev show ?thesis by blast
qed

text \<open>
  The statement as the specification has it, for every sequence of calls, fails on the same arena.
  Releasing a pointer a second time, after its block has been merged into its
  neighbour, makes \<open>free\<close> trust the stale header at \<open>0x1010\<close>: its stale
  backlink leads to the block at the arena start, whose size becomes 112 in an
  arena of 64 bytes, and the walk steps over the arena end.  And a request of
  \<open>0xFFFFFFF1\<close> bytes is padded to 0 by \<open>align_size\<close>, so that malloc leaves
  a block of size 0 at the arena start, where the walk cannot advance.
\<close>

theorem walk_covers_arena_counterexample:
  "map_option arena_layout
     (run demo_heap [Malloc 8, Malloc 8, Free 0x1018, Free 0x1008]) = Some (Some [(64, False)])
   \<and> map_option arena_layout
     (run demo_heap [Malloc 8, Malloc 8, Free 0x1018, Free 0x1008, Free 0x1018]) = Some None
   \<and> map_option (header_at 0x1000)
     (run demo_heap [Malloc 8, Malloc 8, Free 0x1018, Free 0x1008, Free 0x1018]) = Some (112, 0)
   \<and> heap_start demo_heap = 0x1000 \<and> heap_end demo_heap = 0x1040
   \<and> map_option arena_layout (run demo_heap [Malloc 0xFFFFFFF1]) = Some None
   \<and> map_option (header_at 0x1000) (run demo_heap [Malloc 0xFFFFFFF1]) = Some (1, 0)"
  by (simp add: heap_eval cong: let_weak_cong)




text \<open>
  C4, as amended.  Take an arena set up by \<open>heap_init\<close> on a region that does
  not start at address 0, holds the alignment padding and ends at least 16
  bytes below the top of the address space (\<open>heap_init_ok\<close>), and a sequence
  of malloc and free calls in which every pointer released is null, has its
  header address outside the arena, or is the address malloc returned for a
  block that is in use at that moment, and in which no request size is one of
  the seven values \<open>0xFFFFFFF1\<close> to \<open>0xFFFFFFF7\<close> that \<open>align_size\<close> pads to 0
  (\<open>in_contract\<close>).  Then after every call of the sequence, that is after
  each of its prefixes, the backlinks read from the headers of the blocks in
  address order are 0 for the first block and, for every other block, the size
  of the block before it.
\<close>

theorem backlinks_after_run:
  assumes "heap_init_ok start sz" and "in_contract (heap_init s0 start sz) ops"
  shows "\<exists>s bs. run (heap_init s0 start sz) (take k ops) = Some s
           \<and> arena_layout s = Some bs
           \<and> arena_backlinks s = Some (if bs = [] then [] else 0 # map fst (butlast bs))"
proof -
  from assms(2) have "in_contract (heap_init s0 start sz) (take k ops)"
    by (rule in_contract_take)
  from init_run_inv [OF assms(1) this] obtain s bs where
    r: "run (heap_init s0 start sz) (take k ops) = Some s" and inv: "heap_inv s bs" by blast
  from heap_inv_walk(1,4) [OF inv]
  have "arena_layout s = Some bs"
    and "arena_backlinks s = Some (if bs = [] then [] else 0 # map fst (butlast bs))"
    by (simp_all add: arena_backlinks_def)
  with r show ?thesis by blast
qed

text \<open>
  The amended statement at the 64-byte arena at \<open>0x1000\<close>, after all three calls
  of a sequence: the blocks have the sizes 16, 32 and 16 and the backlinks 0, 16
  and 32.
\<close>

theorem backlinks_after_run_witness:
  "heap_init_ok 0x1000 64
   \<and> in_contract (heap_init boot 0x1000 64) [Malloc 8, Malloc 24, Free 0x1008]
   \<and> map_option arena_layout
       (run (heap_init boot 0x1000 64) (take 3 [Malloc 8, Malloc 24, Free 0x1008]))
       = Some (Some [(16, False), (32, True), (16, False)])
   \<and> map_option arena_backlinks
       (run (heap_init boot 0x1000 64) (take 3 [Malloc 8, Malloc 24, Free 0x1008]))
       = Some (Some [0, 16, 32])
   \<and> (\<exists>s bs. run (heap_init boot 0x1000 64) (take 3 [Malloc 8, Malloc 24, Free 0x1008]) = Some s
           \<and> arena_layout s = Some bs
           \<and> arena_backlinks s = Some (if bs = [] then [] else 0 # map fst (butlast bs)))"
proof -
  have ok: "heap_init_ok 0x1000 64"
    by (simp add: heap_init_ok_def ALIGNMENT_def)
  have ic: "in_contract (heap_init boot 0x1000 64) [Malloc 8, Malloc 24, Free 0x1008]"
    by (simp add: heap_eval releasable_def cong: let_weak_cong)
  have ev: "map_option arena_layout
              (run (heap_init boot 0x1000 64) (take 3 [Malloc 8, Malloc 24, Free 0x1008]))
            = Some (Some [(16, False), (32, True), (16, False)])"
    "map_option arena_backlinks
              (run (heap_init boot 0x1000 64) (take 3 [Malloc 8, Malloc 24, Free 0x1008]))
            = Some (Some [0, 16, 32])"
    by (simp_all add: heap_eval cong: let_weak_cong)
  from backlinks_after_run [OF ok ic, of 3] ok ic ev show ?thesis by blast
qed

text \<open>
  The statement as the specification has it, after every release, fails on the same arena.  The
  pointer \<open>0x1018\<close> is released, its block is merged into a block of 32 bytes
  that is then allocated again, and the pointer is released a second time.
  Its header at \<open>0x1010\<close> lies inside that block's payload now; \<open>free\<close> takes the
  stale size 16 from it, passes the validation since \<open>0x1010\<close> is inside the
  arena, and writes the backlink 32 into the header of the block at \<open>0x1030\<close>,
  whose predecessor has 16 bytes.  (Before that call the backlinks are right.)
  And a request of \<open>0xFFFFFFF1\<close> bytes is padded to 0 by \<open>align_size\<close>: malloc
  then writes a header of size 0 at \<open>0x1010\<close> whose backlink is 0, after a
  block of 16 bytes.
\<close>

theorem backlinks_after_run_counterexample:
  "map_option arena_layout
     (run demo_heap [Malloc 8, Malloc 8, Malloc 8, Malloc 8, Free 0x1018, Free 0x1008, Malloc 24,
        Free 0x1028])
     = Some (Some [(32, True), (16, False), (16, True)])
   \<and> map_option arena_backlinks
     (run demo_heap [Malloc 8, Malloc 8, Malloc 8, Malloc 8, Free 0x1018, Free 0x1008, Malloc 24,
        Free 0x1028])
     = Some (Some [0, 32, 16])
   \<and> map_option arena_layout
     (run demo_heap [Malloc 8, Malloc 8, Malloc 8, Malloc 8, Free 0x1018, Free 0x1008, Malloc 24,
        Free 0x1028, Free 0x1018])
     = Some (Some [(32, True), (16, False), (16, True)])
   \<and> map_option arena_backlinks
     (run demo_heap [Malloc 8, Malloc 8, Malloc 8, Malloc 8, Free 0x1018, Free 0x1008, Malloc 24,
        Free 0x1028, Free 0x1018])
     = Some (Some [0, 32, 32])
   \<and> map_option (header_at 0x1000) (run demo_heap [Malloc 8, Malloc 0xFFFFFFF1]) = Some (17, 0)
   \<and> map_option (header_at 0x1010) (run demo_heap [Malloc 8, Malloc 0xFFFFFFF1]) = Some (1, 0)"
  by (simp add: heap_eval cong: let_weak_cong)

text \<open>
  C5.  The round trip fails for a request of \<open>0xFFFFFFF1\<close> bytes.  In
  \<open>align_size\<close> the sum \<open>size + sizeof(block_header_t)\<close>, rounded up to a
  multiple of 8, wraps round to 0 (calloc guards its own product against
  overflow, \<open>align_size\<close> has no guard).  On the 64-byte arena at \<open>0x1000\<close>,
  whose layout is one free block of 64 bytes, malloc then takes the block as
  large enough for a block of 0 bytes, splits it at offset 0, leaves a header
  of size 0 with the used flag set and returns \<open>0x1008\<close>, which is not null.  Releasing that pointer
  clears the flag and leaves a block of size 0 at the arena start: the layout
  before the allocation is not restored, and the walk over the arena does not
  advance any more.  (For every request size that \<open>align_size\<close> does not pad to
  0 the round trip holds in a well formed arena without two free neighbours:
  lemmas \<open>malloc_free_roundtrip\<close> and
  \<open>malloc_free_roundtrip_layout\<close>.)
\<close>

theorem malloc_free_wrapped_size:
  "align_size 0xFFFFFFF1 = 0
   \<and> arena_layout demo_heap = Some [(64, False)]
   \<and> header_at 0x1000 demo_heap = (64, 0)
   \<and> map_option snd (malloc demo_heap 0xFFFFFFF1) = Some 0x1008
   \<and> map_option (header_at 0x1000) (run demo_heap [Malloc 0xFFFFFFF1]) = Some (1, 0)
   \<and> map_option (header_at 0x1000) (run demo_heap [Malloc 0xFFFFFFF1, Free 0x1008]) = Some (0, 0)
   \<and> map_option arena_layout (run demo_heap [Malloc 0xFFFFFFF1, Free 0x1008]) = Some None"
  by (simp add: heap_eval cong: let_weak_cong)

text \<open>
  C6.  Releasing the null pointer, or a pointer whose header address
  \<open>ptr - 8\<close> lies outside \<open>[heap_start, heap_end)\<close>, is a no-op.  First,
  \<open>free\<close> returns the allocator state as it was, whatever the memory holds: no
  header, no byte of memory and none of the allocator's variables changes.
  Second, the pointer is validated before memory is touched: the list of
  memory accesses that \<open>free_acc\<close> records for the call is empty, so the call
  neither reads nor writes the header at \<open>ptr - 8\<close> nor any other location.
  (\<open>free_acc_state\<close> shows that \<open>free_acc\<close> computes the state \<open>free\<close> computes,
  and \<open>free_acc_valid\<close> that a call that passes the validation does begin by
  reading and writing the header at \<open>ptr - 8\<close>.)
\<close>

theorem free_invalid_noop:
  "ptr = NULL \<or> ptr - HEADER_SIZE < heap_start s \<or> heap_end s \<le> ptr - HEADER_SIZE
     \<Longrightarrow> free (s\<lparr>mem := m\<rparr>) ptr = s\<lparr>mem := m\<rparr>
         \<and> free_acc (s\<lparr>mem := m\<rparr>) ptr = (s\<lparr>mem := m\<rparr>, [])"
  by (auto simp: free_def free_acc_def Let_def)

text \<open>
  The theorem at an arena \<open>[0x1000, 0x1040)\<close> in a memory whose bytes are all
  \<open>0xFF\<close>: a pointer whose header address \<open>0xFFC\<close> is below the start, one
  whose header address is the end of the arena, the pointer \<open>4\<close>, whose header
  address wraps round to \<open>0xFFFFFFFC\<close>, and the null pointer.
\<close>

theorem free_invalid_noop_witness:
  "0x1004 - HEADER_SIZE < heap_start demo_heap
   \<and> free (demo_heap\<lparr>mem := \<lambda>a. 0xFF\<rparr>) 0x1004 = demo_heap\<lparr>mem := \<lambda>a. 0xFF\<rparr>
   \<and> free_acc (demo_heap\<lparr>mem := \<lambda>a. 0xFF\<rparr>) 0x1004 = (demo_heap\<lparr>mem := \<lambda>a. 0xFF\<rparr>, [])
   \<and> heap_end demo_heap \<le> 0x1048 - HEADER_SIZE
   \<and> free (demo_heap\<lparr>mem := \<lambda>a. 0xFF\<rparr>) 0x1048 = demo_heap\<lparr>mem := \<lambda>a. 0xFF\<rparr>
   \<and> free_acc (demo_heap\<lparr>mem := \<lambda>a. 0xFF\<rparr>) 0x1048 = (demo_heap\<lparr>mem := \<lambda>a. 0xFF\<rparr>, [])
   \<and> heap_end demo_heap \<le> 4 - HEADER_SIZE
   \<and> free (demo_heap\<lparr>mem := \<lambda>a. 0xFF\<rparr>) 4 = demo_heap\<lparr>mem := \<lambda>a. 0xFF\<rparr>
   \<and> free_acc (demo_heap\<lparr>mem := \<lambda>a. 0xFF\<rparr>) 4 = (demo_heap\<lparr>mem := \<lambda>a. 0xFF\<rparr>, [])
   \<and> free (demo_heap\<lparr>mem := \<lambda>a. 0xFF\<rparr>) NULL = demo_heap\<lparr>mem := \<lambda>a. 0xFF\<rparr>
   \<and> free_acc (demo_heap\<lparr>mem := \<lambda>a. 0xFF\<rparr>) NULL = (demo_heap\<lparr>mem := \<lambda>a. 0xFF\<rparr>, [])"
proof -
  have h1: "0x1004 - HEADER_SIZE < heap_start demo_heap"
    by (simp add: demo_heap_def heap_init_def Let_def ALIGNMENT_def HEADER_SIZE_def)
  have h2: "heap_end demo_heap \<le> 0x1048 - HEADER_SIZE"
    by (simp add: demo_heap_def heap_init_def Let_def ALIGNMENT_def HEADER_SIZE_def)
  have h3: "heap_end demo_heap \<le> 4 - HEADER_SIZE"
    by (simp add: demo_heap_def heap_init_def Let_def ALIGNMENT_def HEADER_SIZE_def)
  from free_invalid_noop [of "0x1004" demo_heap "\<lambda>a. 0xFF"]
    free_invalid_noop [of "0x1048" demo_heap "\<lambda>a. 0xFF"]
    free_invalid_noop [of 4 demo_heap "\<lambda>a. 0xFF"]
    free_invalid_noop [of NULL demo_heap "\<lambda>a. 0xFF"] h1 h2 h3
  show ?thesis by simp
qed


text \<open>
  C8.  Let the arena be well formed with block layout \<open>bs\<close> (\<open>heap_inv\<close>), let
  \<open>p\<close> be the address malloc returned for a block of \<open>bs\<close> that is in use, and
  let \<open>n > 0\<close> be a size whose padded block size \<open>align_size n\<close> exceeds the size
  in the header of \<open>p\<close>'s block.  If the allocation that realloc then attempts
  fails, that is \<open>malloc s n\<close> returns the null pointer, then realloc returns
  the null pointer together with the very state \<open>s\<close> it was called in: no byte
  of memory has changed, so the block of \<open>p\<close> is still in use with its
  contents, and every other block is as it was.
\<close>

theorem realloc_failure_keeps_arena:
  assumes "heap_inv s bs" and "p \<in> set (used_ptrs (heap_start s) bs)" and "n \<noteq> 0"
    and "\<not> align_size n \<le> (get_size (mem s) (p - HEADER_SIZE) AND BLOCK_SIZE_MASK)"
    and "malloc s n = Some (s1, NULL)"
  shows "realloc s p n = Some (s, NULL)"
proof -
  from used_ptrs_split [OF assms(2)] obtain pre sz post where
    bs: "bs = pre @ (sz, True) # post" and p: "p = block_ptr s pre"
    by (auto simp: block_ptr_def)
  from block_ptr_unat(3) [OF assms(1) [unfolded bs]] p have "p \<noteq> NULL" by simp
  from assms(1) this assms(3-5) show ?thesis by (rule realloc_fail)
qed

text \<open>
  The theorem in the 64-byte arena at \<open>0x1000\<close> after \<open>malloc(8)\<close>, which
  leaves a used block of 16 bytes and a free block of 48: growing the
  allocation to 100 bytes needs a block of 112 bytes, which the arena cannot
  give.
\<close>

theorem realloc_failure_keeps_arena_witness:
  "heap_inv (the (run demo_heap [Malloc 8])) [(16, True), (48, False)]
   \<and> 0x1008 \<in> set (used_ptrs (heap_start (the (run demo_heap [Malloc 8])))
                    [(16, True), (48, False)])
   \<and> align_size 100 = 112
   \<and> get_size (mem (the (run demo_heap [Malloc 8]))) (0x1008 - HEADER_SIZE) = 17
   \<and> malloc (the (run demo_heap [Malloc 8])) 100 = Some (the (run demo_heap [Malloc 8]), NULL)
   \<and> realloc (the (run demo_heap [Malloc 8])) 0x1008 100
       = Some (the (run demo_heap [Malloc 8]), NULL)"
proof -
  let ?s = "the (run demo_heap [Malloc 8])"
  have inv: "heap_inv ?s [(16, True), (48, False)]"
    by (simp add: heap_eval heap_inv_def used_flag_def cong: let_weak_cong)
  have hs: "heap_start ?s = 0x1000"
    by (simp add: heap_eval cong: let_weak_cong)
  have p: "0x1008 \<in> set (used_ptrs (heap_start ?s) [(16, True), (48, False)])"
    unfolding hs by (simp add: HEADER_SIZE_def)
  have n: "(100 :: u32) \<noteq> 0" by simp
  have al: "align_size 100 = 112"
    by (simp add: align_size_def Let_def HEADER_SIZE_def MIN_BLOCK_SIZE_def ALIGNMENT_def)
  have gs: "get_size (mem ?s) (0x1008 - HEADER_SIZE) = 17"
    by (simp add: heap_eval cong: let_weak_cong)
  have big: "\<not> align_size 100 \<le> (get_size (mem ?s) (0x1008 - HEADER_SIZE) AND BLOCK_SIZE_MASK)"
    unfolding al gs by (simp add: BLOCK_SIZE_MASK_def)
  have m: "malloc ?s 100 = Some (?s, NULL)"
    by (simp add: heap_eval cong: let_weak_cong)
  from realloc_failure_keeps_arena [OF inv p n big m] inv p al gs m show ?thesis by blast
qed




end
